theory Spec2Isabelle
  imports Main "HOL-Library.Word"
begin

unbundle bit_operations_syntax

section \<open>The content server of tremulous_web (node/web.js, second module)\<close>

text \<open>
  The development embeds the content server: asset discovery (\<open>getAssets\<close>), the
  per-file integrity pipeline and the manifest build (\<open>generateManifest\<close>), the two
  request handlers (\<open>handleManifest\<close>, \<open>handleAsset\<close>) and the start-up sequence
  (\<open>main\<close>). Library functions the server calls (buffer-crc32, Node's \<open>path\<close>,
  \<open>parseInt\<close>, the route's regular expression, \<open>async.map\<close>) are modelled from
  their published behaviour and say so where they are defined.
\<close>

subsection \<open>buffer-crc32\<close>

type_synonym byte = "8 word"
type_synonym buffer = "byte list"

text \<open>
  The library holds \<open>CRC_TABLE\<close> as a literal array of 256 entries. They are the
  entries of the reflected CRC-32 polynomial \<open>0xEDB88320\<close>: entry \<open>n\<close> is \<open>n\<close> after
  eight rounds of shift-and-conditionally-xor.
\<close>

definition crc_round :: "32 word \<Rightarrow> 32 word" where
  "crc_round c = (if bit c 0 then drop_bit 1 c XOR 0xEDB88320 else drop_bit 1 c)"

definition CRC_TABLE :: "32 word \<Rightarrow> 32 word" where
  "CRC_TABLE n = (crc_round ^^ 8) n"

text \<open>
  The loop of \<open>_crc32\<close>:
  \<^verbatim>\<open>crc = CRC_TABLE[(crc ^ buf[n]) & 0xff] ^ (crc >>> 8)\<close>
  on the 32-bit pattern of \<open>crc\<close>.
\<close>

fun crc_loop :: "32 word \<Rightarrow> buffer \<Rightarrow> 32 word" where
  "crc_loop crc [] = crc"
| "crc_loop crc (b # buf) =
     crc_loop (CRC_TABLE ((crc XOR ucast b) AND 0xff) XOR drop_bit 8 crc) buf"

text \<open>
  \<^verbatim>\<open>function _crc32(buf, previous) { var crc = ~~previous ^ -1; ...; return crc ^ -1 }\<close>
  \<open>previous\<close> is a JavaScript number (here always an integer) or \<open>undefined\<close> (the
  one-argument call). \<open>~~\<close> is ToInt32: \<open>undefined\<close> becomes 0 and an integer is
  reduced modulo \<open>2^32\<close>; \<open>^ -1\<close> complements the 32 bits.
\<close>

definition to_int32 :: "int option \<Rightarrow> 32 word" where
  "to_int32 previous = (case previous of None \<Rightarrow> 0 | Some p \<Rightarrow> word_of_int p)"

definition crc32_raw :: "buffer \<Rightarrow> int option \<Rightarrow> 32 word" where
  "crc32_raw buf previous = NOT (crc_loop (NOT (to_int32 previous)) buf)"

text \<open>
  \<^verbatim>\<open>crc32.unsigned = function () { return _crc32.apply(null, arguments) >>> 0 }\<close>:
  the 32 bits read as an unsigned number.
\<close>

definition crc32_unsigned :: "buffer \<Rightarrow> int option \<Rightarrow> int" where
  "crc32_unsigned buf previous = uint (crc32_raw buf previous)"

text \<open>
  The checksum fold of \<open>generateManifest\<close>: the seed is \<^verbatim>\<open>crc32.unsigned('')\<close> (the
  empty string is the empty buffer) and every \<open>data\<close> event of the read stream runs
  \<^verbatim>\<open>crc = crc32.unsigned(data, crc)\<close>.
\<close>

definition crc_seed :: int where
  "crc_seed = crc32_unsigned [] None"

definition crc_on_data :: "int \<Rightarrow> buffer \<Rightarrow> int" where
  "crc_on_data crc data = crc32_unsigned data (Some crc)"

definition crc_of_chunks :: "buffer list \<Rightarrow> int" where
  "crc_of_chunks chunks = foldl crc_on_data crc_seed chunks"

subsection \<open>Node's path module (POSIX)\<close>

text \<open>
  The server calls \<open>path.join\<close>, \<open>path.resolve\<close>, \<open>path.relative\<close> and
  \<open>path.extname\<close>. Node implements them character by character; the model works on
  the segments between slashes, which is what those loops compute. A path is a
  \<open>string\<close>; \<open>split_slash\<close> is \<^verbatim>\<open>p.split('/')\<close> and \<open>join_slash\<close> is
  \<^verbatim>\<open>segs.join('/')\<close>.
\<close>

fun split_slash :: "string \<Rightarrow> string list" where
  "split_slash [] = [[]]"
| "split_slash (c # cs) =
     (if c = CHR ''/'' then [] # split_slash cs
      else (case split_slash cs of [] \<Rightarrow> [[c]] | s # ss \<Rightarrow> (c # s) # ss))"

fun join_slash :: "string list \<Rightarrow> string" where
  "join_slash [] = []"
| "join_slash [s] = s"
| "join_slash (s # t # ss) = s @ CHR ''/'' # join_slash (t # ss)"

text \<open>
  One segment of \<open>normalizeString\<close>: an empty segment and \<open>.\<close> are dropped; \<open>..\<close>
  removes the last kept segment unless there is none or it is itself \<open>..\<close>, in which
  case \<open>..\<close> is kept when \<open>allowAboveRoot\<close> and dropped otherwise; any other segment
  is kept.
\<close>

definition norm_step :: "bool \<Rightarrow> string list \<Rightarrow> string \<Rightarrow> string list" where
  "norm_step allowAboveRoot res seg =
     (if seg = [] \<or> seg = ''.'' then res
      else if seg = ''..'' then
        (if res \<noteq> [] \<and> last res \<noteq> ''..'' then butlast res
         else if allowAboveRoot then res @ [''..''] else res)
      else res @ [seg])"

definition norm_segs :: "bool \<Rightarrow> string list \<Rightarrow> string list \<Rightarrow> string list" where
  "norm_segs allowAboveRoot res segs = foldl (norm_step allowAboveRoot) res segs"

definition normalizeString :: "string \<Rightarrow> bool \<Rightarrow> string" where
  "normalizeString path allowAboveRoot =
     join_slash (norm_segs allowAboveRoot [] (split_slash path))"

text \<open>\<open>path.normalize\<close>.\<close>

definition path_normalize :: "string \<Rightarrow> string" where
  "path_normalize path =
     (if path = [] then ''.''
      else
        let isAbsolute = (hd path = CHR ''/'');
            trailingSeparator = (last path = CHR ''/'');
            p = normalizeString path (\<not> isAbsolute)
        in if p = [] then
             (if isAbsolute then ''/'' else if trailingSeparator then ''./'' else ''.'')
           else (if isAbsolute then ''/'' else []) @ p @
                (if trailingSeparator then ''/'' else []))"

text \<open>
  \<open>path.join(...args)\<close>: the non-empty arguments joined by a slash, normalized;
  \<open>.\<close> when there is none.
\<close>

definition path_join :: "string list \<Rightarrow> string" where
  "path_join args =
     (let joined = join_slash (filter (\<lambda>a. a \<noteq> []) args)
      in if joined = [] then ''.'' else path_normalize joined)"

text \<open>
  \<open>path.resolve(...args)\<close>: the arguments are prepended from the right, the working
  directory last, until an absolute one is met; empty arguments are skipped. The list
  given to \<open>resolve_args\<close> is the arguments in that order.
\<close>

fun resolve_args :: "string list \<Rightarrow> string \<Rightarrow> string \<times> bool" where
  "resolve_args [] resolvedPath = (resolvedPath, False)"
| "resolve_args (p # ps) resolvedPath =
     (if p = [] then resolve_args ps resolvedPath
      else if hd p = CHR ''/'' then (p @ CHR ''/'' # resolvedPath, True)
      else resolve_args ps (p @ CHR ''/'' # resolvedPath))"

definition path_resolve :: "string \<Rightarrow> string list \<Rightarrow> string" where
  "path_resolve cwd args =
     (case resolve_args (rev args @ [cwd]) [] of
        (resolvedPath, resolvedAbsolute) \<Rightarrow>
          let r = normalizeString resolvedPath (\<not> resolvedAbsolute)
          in if resolvedAbsolute then CHR ''/'' # r
             else if r \<noteq> [] then r else ''.'')"

text \<open>
  \<open>path.relative(from, to)\<close>: both are resolved; the segments they share from the root
  are dropped, every remaining segment of \<open>from\<close> becomes \<open>..\<close>, and the remaining
  segments of \<open>to\<close> follow.
\<close>

fun drop_common :: "'a list \<Rightarrow> 'a list \<Rightarrow> 'a list \<times> 'a list" where
  "drop_common (x # xs) (y # ys) = (if x = y then drop_common xs ys else (x # xs, y # ys))"
| "drop_common xs ys = (xs, ys)"

definition path_segments :: "string \<Rightarrow> string list" where
  "path_segments p = filter (\<lambda>s. s \<noteq> []) (split_slash p)"

definition path_relative :: "string \<Rightarrow> string \<Rightarrow> string \<Rightarrow> string" where
  "path_relative cwd from to =
     (if from = to then []
      else
        let from' = path_resolve cwd [from]; to' = path_resolve cwd [to]
        in if from' = to' then []
           else (case drop_common (path_segments from') (path_segments to') of
                   (fs, ts) \<Rightarrow> join_slash (replicate (length fs) ''..'' @ ts)))"

text \<open>
  \<open>path.extname(path)\<close>: of the last non-empty segment, the part from its last dot on;
  empty when there is no dot, when the last dot is the segment's first character, or
  when the segment is \<open>..\<close>.
\<close>

definition ext_of_base :: "string \<Rightarrow> string" where
  "ext_of_base b =
     (let suffix = rev (takeWhile (\<lambda>c. c \<noteq> CHR ''.'') (rev b));
          beforeDot = take (length b - length suffix - 1) b
      in if CHR ''.'' \<notin> set b \<or> beforeDot = [] \<or> b = ''..'' then []
         else CHR ''.'' # suffix)"

definition path_extname :: "string \<Rightarrow> string" where
  "path_extname path =
     (case rev (path_segments path) of [] \<Rightarrow> [] | b # _ \<Rightarrow> ext_of_base b)"

subsection \<open>Configuration\<close>

text \<open>
  \<open>loadConfig\<close> starts from the defaults and copies every key of the configuration file
  over them (\<^verbatim>\<open>_.extend(config, data)\<close>); when the file cannot be loaded the defaults
  stand. The record holds the keys the server reads and, in \<open>cfg_other\<close>, whatever
  else the file sets. \<open>cfg_validAssets\<close> is \<open>None\<close> when the file sets the key to a
  falsy value.
\<close>

record config =
  cfg_root :: string
  cfg_port :: nat
  cfg_validAssets :: "string list option"
  cfg_other :: "(string \<times> string) list"

record config_file =
  file_root :: "string option"
  file_port :: "nat option"
  file_validAssets :: "string list option option"
  file_other :: "(string \<times> string) list"

definition default_validAssets :: "string list" where
  "default_validAssets = [''.pk3'', ''.run'', ''.sh'', ''.qvm'']"

definition default_config :: config where
  "default_config =
     \<lparr>cfg_root = ''pk3_assets'', cfg_port = 9000,
      cfg_validAssets = Some default_validAssets, cfg_other = []\<rparr>"

definition loadConfig :: "config_file option \<Rightarrow> config" where
  "loadConfig data =
     (case data of
        None \<Rightarrow> default_config
      | Some d \<Rightarrow>
          \<lparr>cfg_root = (case file_root d of None \<Rightarrow> cfg_root default_config | Some r \<Rightarrow> r),
           cfg_port = (case file_port d of None \<Rightarrow> cfg_port default_config | Some p \<Rightarrow> p),
           cfg_validAssets =
             (case file_validAssets d of
                None \<Rightarrow> cfg_validAssets default_config | Some v \<Rightarrow> v),
           cfg_other = file_other d\<rparr>)"

text \<open>\<^verbatim>\<open>var validAssets = config.validAssets || ['.pk3', '.run', '.sh', '.qvm']\<close>\<close>

definition validAssets :: "config \<Rightarrow> string list" where
  "validAssets cfg =
     (case cfg_validAssets cfg of None \<Rightarrow> default_validAssets | Some v \<Rightarrow> v)"

subsection \<open>The content root as a directory snapshot\<close>

text \<open>
  What \<open>fs.readdirSync(dir, {withFileTypes: true})\<close> shows of the content root: a
  directory lists named entries, in the order \<open>readdirSync\<close> returns them. An entry is
  a regular file with its bytes, a directory, a directory whose listing fails
  (\<open>readdirSync\<close> throws), or something for which neither \<open>isDirectory()\<close> nor
  \<open>isFile()\<close> holds (a symbolic link, a socket, a device).
\<close>

datatype fsnode =
    File buffer
  | Dir "(string \<times> fsnode) list"
  | DirUnreadable
  | Special

datatype error =
    ReadDirError string
  | ReadError string
  | CallbackTwice

text \<open>
  \<open>readDirRecursive(dir)\<close>, given the listing of \<open>dir\<close>. The source pushes onto the
  shared array \<open>files\<close> in traversal order; the model returns the paths pushed, in that
  order, or the error \<open>readdirSync\<close> threw.
\<close>

function readDirRecursive ::
  "config \<Rightarrow> string \<Rightarrow> string \<Rightarrow> (string \<times> fsnode) list \<Rightarrow> error + string list" where
  "readDirRecursive cfg cwd dir [] = Inr []"
| "readDirRecursive cfg cwd dir ((entry_name, node) # entries) =
     (let fullPath = path_join [dir, entry_name];
          pushed =
            (case node of
               Dir sub \<Rightarrow> readDirRecursive cfg cwd fullPath sub
             | DirUnreadable \<Rightarrow> Inl (ReadDirError fullPath)
             | File bytes \<Rightarrow> Inr [path_relative cwd (cfg_root cfg) fullPath]
             | Special \<Rightarrow> Inr [])
      in case pushed of
           Inl e \<Rightarrow> Inl e
         | Inr files \<Rightarrow>
             (case readDirRecursive cfg cwd dir entries of
                Inl e \<Rightarrow> Inl e
              | Inr others \<Rightarrow> Inr (files @ others)))"
  by pat_completeness auto
termination
  by (relation "measure (\<lambda>(cfg, cwd, dir, entries).
        size_list (size_prod (\<lambda>_. 0) size) entries)") auto

text \<open>
  \<open>getAssets()\<close>: the walk from \<open>config.root\<close>, the paths whose extension is
  allow-listed (\<^verbatim>\<open>validAssets.indexOf(ext) !== -1\<close>), each joined to the root again.
\<close>

definition getAssets :: "config \<Rightarrow> string \<Rightarrow> fsnode \<Rightarrow> error + string list" where
  "getAssets cfg cwd fs =
     (case fs of
        Dir entries \<Rightarrow>
          (case readDirRecursive cfg cwd (cfg_root cfg) entries of
             Inl e \<Rightarrow> Inl e
           | Inr files \<Rightarrow>
               Inr (map (\<lambda>file. path_join [cfg_root cfg, file])
                      (filter (\<lambda>file. path_extname file \<in> set (validAssets cfg)) files)))
      | _ \<Rightarrow> Inl (ReadDirError (cfg_root cfg)))"

subsection \<open>What a directory snapshot holds\<close>

text \<open>
  A name that \<open>readdirSync\<close> can return: not empty, without a slash, and neither \<open>.\<close>
  nor \<open>..\<close>. In a snapshot every entry has such a name and no directory lists a
  name twice.
\<close>

definition is_file_name :: "string \<Rightarrow> bool" where
  "is_file_name s = (s \<noteq> [] \<and> s \<noteq> ''.'' \<and> s \<noteq> ''..'' \<and> CHR ''/'' \<notin> set s)"

function snapshot_ok :: "(string \<times> fsnode) list \<Rightarrow> bool" where
  "snapshot_ok [] = True"
| "snapshot_ok ((entry_name, node) # entries) =
     (is_file_name entry_name \<and> entry_name \<notin> set (map fst entries)
      \<and> (case node of Dir sub \<Rightarrow> snapshot_ok sub | _ \<Rightarrow> True)
      \<and> snapshot_ok entries)"
  by pat_completeness auto
termination
  by (relation "measure (size_list (size_prod (\<lambda>_. 0) size))") auto

text \<open>
  The regular files under a directory, at any depth, each as the list of names that
  leads to it from the directory; directories are entered in listing order. This is the
  specification's side of discovery: it uses no path arithmetic.
\<close>

function tree_files :: "(string \<times> fsnode) list \<Rightarrow> string list list" where
  "tree_files [] = []"
| "tree_files ((entry_name, node) # entries) =
     (case node of
        File bytes \<Rightarrow> [[entry_name]]
      | Dir sub \<Rightarrow> map ((#) entry_name) (tree_files sub)
      | _ \<Rightarrow> []) @ tree_files entries"
  by pat_completeness auto
termination
  by (relation "measure (size_list (size_prod (\<lambda>_. 0) size))") auto

text \<open>Whether every directory of the snapshot can be listed.\<close>

function all_readable :: "(string \<times> fsnode) list \<Rightarrow> bool" where
  "all_readable [] = True"
| "all_readable ((entry_name, node) # entries) =
     ((case node of Dir sub \<Rightarrow> all_readable sub | DirUnreadable \<Rightarrow> False | _ \<Rightarrow> True)
      \<and> all_readable entries)"
  by pat_completeness auto
termination
  by (relation "measure (size_list (size_prod (\<lambda>_. 0) size))") auto

subsection \<open>Segments of a resolved path\<close>

text \<open>
  Notions the proofs about paths are stated with. A segment is \<open>proper\<close> when
  \<open>normalizeString\<close> keeps it as it is. \<open>resolved cwd p\<close> is the list of segments of
  \<open>path.resolve(p)\<close> in a process whose working directory is \<open>cwd\<close>, computed on
  segments.
\<close>

definition proper :: "string \<Rightarrow> bool" where
  "proper s = (s \<noteq> [] \<and> s \<noteq> ''.'' \<and> s \<noteq> ''..'')"

definition absolute :: "string \<Rightarrow> bool" where
  "absolute p = (p \<noteq> [] \<and> hd p = CHR ''/'')"

definition resolve_base :: "string \<Rightarrow> string \<Rightarrow> string list" where
  "resolve_base cwd p =
     (if absolute p then [] else norm_segs False [] (split_slash cwd))"

definition resolved :: "string \<Rightarrow> string \<Rightarrow> string list" where
  "resolved cwd p = norm_segs False (resolve_base cwd p) (split_slash p)"

text \<open>
  A file is below the content root when its resolved path is the resolved path of the
  root followed by at least one more segment.
\<close>

definition below_root :: "config \<Rightarrow> string \<Rightarrow> string \<Rightarrow> bool" where
  "below_root cfg cwd file =
     (let r = path_segments (path_resolve cwd [cfg_root cfg]);
          s = path_segments (path_resolve cwd [file])
      in length r < length s \<and> take (length r) s = r)"

subsection \<open>Manifest entries and the two handlers\<close>

text \<open>
  A manifest entry is the object literal \<^verbatim>\<open>{name: name, compressed: compressed, checksum: crc}\<close>
  of \<open>generateManifest\<close>; a manifest is the array of them. Times are milliseconds
  (\<open>Date.now()\<close>).
\<close>

type_synonym time = int

record entry =
  name :: string
  compressed :: nat
  checksum :: int

type_synonym manifest = "entry list"

datatype json =
    JNum int
  | JStr string
  | JArr "json list"
  | JObj "(string \<times> json) list"

text \<open>
  \<open>res.json\<close> sends \<open>JSON.stringify\<close> of its argument: an object becomes its own
  properties, in the order the literal lists them.
\<close>

definition entry_json :: "entry \<Rightarrow> json" where
  "entry_json e =
     JObj [(''name'', JStr (name e)),
           (''compressed'', JNum (int (compressed e))),
           (''checksum'', JNum (checksum e))]"

definition manifest_json :: "manifest \<Rightarrow> json" where
  "manifest_json m = JArr (map entry_json m)"

text \<open>
  A header value is a string or an HTTP date. \<open>Date.prototype.toUTCString\<close> prints a
  date to the second; \<open>HDate s\<close> stands for the date string of second \<open>s\<close> since the
  epoch.
\<close>

datatype header_value = HStr string | HDate int

definition toUTCString :: "time \<Rightarrow> header_value" where
  "toUTCString t = HDate (t div 1000)"

datatype response =
    Json "(string \<times> header_value) list" json
  | Status nat
  | SendFile string

text \<open>\<open>handleManifest\<close>, on the two globals it reads.\<close>

definition handleManifest :: "manifest \<Rightarrow> time \<Rightarrow> response" where
  "handleManifest currentManifest currentManifestTimestamp =
     Json [(''Cache-Control'', HStr ''public, max-age=60, must-revalidate''),
           (''Last-Modified'', toUTCString currentManifestTimestamp)]
          (manifest_json currentManifest)"

text \<open>
  A JavaScript number as \<open>parseInt\<close> can return it: \<open>NaN\<close>, an infinity (\<open>True\<close> for
  the negative one), or a finite integer value.
\<close>

datatype js_number = NaN | Infinite bool | Finite int

text \<open>
  A non-negative integer as a double, rounded to the nearest and to the even one at a
  tie (\<open>Number\<close> has 53 bits of precision; from \<open>2^1024\<close> on the result is infinite).
  \<open>bit_length n\<close> is the number of binary digits of \<open>n\<close>.
\<close>

function bit_length :: "int \<Rightarrow> nat" where
  "bit_length n = (if n \<le> 0 then 0 else Suc (bit_length (n div 2)))"
  by pat_completeness auto
termination
  by (relation "measure nat") auto

definition to_double :: "int \<Rightarrow> js_number" where
  "to_double n =
     (if n < 2 ^ 53 then Finite n
      else
        let k = bit_length n - 53;
            q = n div 2 ^ k;
            r = n mod 2 ^ k;
            q' = (if 2 ^ k < 2 * r \<or> (2 * r = 2 ^ k \<and> odd q) then q + 1 else q)
        in if 2 ^ 1024 \<le> q' * 2 ^ k then Infinite False else Finite (q' * 2 ^ k))"

definition negate :: "js_number \<Rightarrow> js_number" where
  "negate x = (case x of NaN \<Rightarrow> NaN | Infinite s \<Rightarrow> Infinite (\<not> s) | Finite n \<Rightarrow> Finite (- n))"

text \<open>
  \<open>parseInt(s, 10)\<close>: leading white space is skipped, a sign is read, then the longest
  run of decimal digits; \<open>NaN\<close> when that run is empty, else the number nearest to the
  value of the digits. Only the white space of ASCII is modelled.
\<close>

definition is_digit :: "char \<Rightarrow> bool" where
  "is_digit c = (48 \<le> (of_char c :: nat) \<and> (of_char c :: nat) \<le> 57)"

definition digit_value :: "char \<Rightarrow> int" where
  "digit_value c = int (of_char c) - 48"

definition is_space :: "char \<Rightarrow> bool" where
  "is_space c = ((of_char c :: nat) \<in> {9, 10, 11, 12, 13, 32})"

definition digits_value :: "string \<Rightarrow> int" where
  "digits_value ds = foldl (\<lambda>acc c. 10 * acc + digit_value c) 0 ds"

definition parseInt :: "string \<Rightarrow> js_number" where
  "parseInt s =
     (let t = dropWhile is_space s;
          negative = (t \<noteq> [] \<and> hd t = CHR ''-'');
          u = (if t \<noteq> [] \<and> (hd t = CHR ''-'' \<or> hd t = CHR ''+'') then tl t else t);
          ds = takeWhile is_digit u
      in if ds = [] then NaN
         else if negative then negate (to_double (digits_value ds))
         else to_double (digits_value ds))"

text \<open>
  The loop of \<open>handleAsset\<close> over \<open>currentManifest\<close>: the first entry with
  \<^verbatim>\<open>entry.name === relativePath && entry.checksum === checksum\<close>. An entry's checksum
  is a finite number; \<open>NaN\<close> and the infinities are equal to none.
\<close>

fun find_asset :: "manifest \<Rightarrow> string \<Rightarrow> js_number \<Rightarrow> entry option" where
  "find_asset [] relativePath requested = None"
| "find_asset (e # rest) relativePath requested =
     (if name e = relativePath \<and> Finite (checksum e) = requested then Some e
      else find_asset rest relativePath requested)"

text \<open>
  \<open>handleAsset\<close>, on the configuration, the working directory of the process (which
  \<open>path.resolve\<close> reads), the global \<open>currentManifest\<close> and \<open>req.params\<close>.
\<close>

definition handleAsset ::
  "config \<Rightarrow> string \<Rightarrow> manifest \<Rightarrow> string \<times> string \<times> string \<Rightarrow> response" where
  "handleAsset cfg cwd currentManifest params =
     (case params of
        (basedir, checksum_text, basename) \<Rightarrow>
          let requested = parseInt checksum_text;
              relativePath = path_join [basedir, basename];
              absolutePath = path_resolve cwd [cfg_root cfg, relativePath]
          in (case find_asset currentManifest relativePath requested of
                None \<Rightarrow> Status 400
              | Some asset \<Rightarrow> SendFile absolutePath))"

subsection \<open>What \<open>res.sendFile\<close> answers\<close>





subsection \<open>The asset route\<close>

text \<open>
  \<^verbatim>\<open>app.get(/^\/assets\/(.+\/|)(\d+)-(.+?)$/, handleAsset)\<close>. The dot matches any
  character but a line terminator. After the first group the rest of the path has to
  be digits, a dash and at least one more character up to the end of the path: the
  digits are the longest run there (a shorter run is followed by a digit, not by the
  dash).
\<close>

definition is_line_terminator :: "char \<Rightarrow> bool" where
  "is_line_terminator c = ((of_char c :: nat) = 10 \<or> (of_char c :: nat) = 13)"

definition match_tail :: "string \<Rightarrow> (string \<times> string) option" where
  "match_tail rest =
     (let ds = takeWhile is_digit rest; r = dropWhile is_digit rest
      in if ds \<noteq> [] \<and> r \<noteq> [] \<and> hd r = CHR ''-'' \<and> tl r \<noteq> []
            \<and> list_all (\<lambda>c. \<not> is_line_terminator c) (tl r)
         then Some (ds, tl r) else None)"

text \<open>
  The first group is tried greedily: \<open>.+\/\<close> over the longest prefix that ends in a
  slash, has a character before it and no line terminator in that part, then over the
  shorter ones, and at last the empty alternative.
\<close>

definition group1_ends :: "string \<Rightarrow> nat list" where
  "group1_ends rest =
     rev (filter (\<lambda>k. rest ! (k - 1) = CHR ''/''
                     \<and> list_all (\<lambda>c. \<not> is_line_terminator c) (take (k - 1) rest))
            [2 ..< Suc (length rest)]) @ [0]"

fun first_match :: "string \<Rightarrow> nat list \<Rightarrow> (string \<times> string \<times> string) option" where
  "first_match rest [] = None"
| "first_match rest (k # ks) =
     (case match_tail (drop k rest) of
        Some (ds, base) \<Rightarrow> Some (take k rest, ds, base)
      | None \<Rightarrow> first_match rest ks)"

definition route_assets :: "string \<Rightarrow> (string \<times> string \<times> string) option" where
  "route_assets path =
     (if take 8 path = ''/assets/'' then first_match (drop 8 path) (group1_ends (drop 8 path))
      else None)"

text \<open>
  Express hands the handler the captures after \<open>decodeURIComponent\<close>, and answers 400
  itself when one does not decode. The decoder is a parameter: \<open>None\<close> where it throws.
\<close>

datatype outcome = NoRoute | Handled response

definition get_asset ::
  "(string \<Rightarrow> string option) \<Rightarrow> config \<Rightarrow> string \<Rightarrow> manifest \<Rightarrow> string \<Rightarrow> outcome" where
  "get_asset decode cfg cwd currentManifest path =
     (case route_assets path of
        None \<Rightarrow> NoRoute
      | Some (g1, g2, g3) \<Rightarrow>
          (case (decode g1, decode g2, decode g3) of
             (Some basedir, Some checksum_text, Some basename) \<Rightarrow>
               Handled (handleAsset cfg cwd currentManifest (basedir, checksum_text, basename))
           | _ \<Rightarrow> Handled (Status 400)))"

subsection \<open>The manifest build and the start of the server\<close>

text \<open>
  \<open>generateManifest\<close> is callback code. \<open>async.map(coll, iteratee, callback)\<close> is the
  library's unlimited map (the limited one is \<open>mapLimit\<close>): it calls the iteratee once
  for every asset, one after the other and before any of them has read a byte, and each
  call opens a read stream and a gzip encoder and registers five handlers. What happens
  afterwards is a sequence of events, each at a time of the clock and for the asset of
  one index. The variables of one call of the iteratee are a \<open>pipeline\<close>.
\<close>

record pipeline =
  p_name :: string
  p_crc :: int
  p_compressed :: nat
  p_size :: nat

datatype event =
    StreamData nat buffer
  | StreamEnd nat
  | StreamError nat error
  | GzipData nat buffer
  | GzipEnd nat

text \<open>
  The state of the process: the build is running (\<open>start\<close>, the pipelines, and the
  results \<open>async.map\<close> has collected so far, by index), or the server listens with its
  two globals \<open>currentManifest\<close> and \<open>currentManifestTimestamp\<close>, or an exception
  nobody catches has ended the process.
\<close>

record build =
  b_start :: time
  b_pipelines :: "pipeline list"
  b_results :: "entry option list"

datatype server =
    Building build
  | Listening manifest time
  | Crashed error

text \<open>
  The head of the iteratee:
  \<^verbatim>\<open>var name = path.relative(config.root, file); var crc = crc32.unsigned(''); var compressed = 0; var size = 0;\<close>
\<close>

definition new_pipeline :: "config \<Rightarrow> string \<Rightarrow> string \<Rightarrow> pipeline" where
  "new_pipeline cfg cwd file =
     \<lparr>p_name = path_relative cwd (cfg_root cfg) file, p_crc = crc_seed,
      p_compressed = 0, p_size = 0\<rparr>"

text \<open>
  \<^verbatim>\<open>stream.on('data', function (data) { crc = crc32.unsigned(data, crc); size += data.length; gzip.write(data); })\<close>
  What the encoder makes of the bytes written to it comes back as gzip events.
\<close>

definition stream_on_data :: "buffer \<Rightarrow> pipeline \<Rightarrow> pipeline" where
  "stream_on_data data p =
     p\<lparr>p_crc := crc_on_data (p_crc p) data, p_size := p_size p + length data\<rparr>"

text \<open>\<^verbatim>\<open>gzip.on('data', function (data) { compressed += data.length; })\<close>\<close>

definition gzip_on_data :: "buffer \<Rightarrow> pipeline \<Rightarrow> pipeline" where
  "gzip_on_data data p = p\<lparr>p_compressed := p_compressed p + length data\<rparr>"

text \<open>
  \<^verbatim>\<open>gzip.on('end', function () { cb(null, {name: name, compressed: compressed, checksum: crc}); })\<close>
\<close>

definition gzip_on_end :: "pipeline \<Rightarrow> entry" where
  "gzip_on_end p = \<lparr>name = p_name p, compressed = p_compressed p, checksum = p_crc p\<rparr>"

text \<open>
  The callback \<open>main\<close> passes to \<open>generateManifest\<close>, called at time \<open>now\<close>:
  \<^verbatim>\<open>if (err) throw err; currentManifestTimestamp = new Date(); currentManifest = manifest;\<close>
  and then the server is created and listens.
\<close>

definition main_callback :: "time \<Rightarrow> error + manifest \<Rightarrow> server" where
  "main_callback now r =
     (case r of Inl err \<Rightarrow> Crashed err | Inr m \<Rightarrow> Listening m now)"

text \<open>
  The callback \<open>cb\<close> of \<open>async.map\<close> for index \<open>i\<close>: the result is stored; a second
  call for the same index throws (\<open>Callback was already called\<close>); when every index
  has its result the final callback runs, which here passes the entries on to the
  callback of \<open>main\<close>.
\<close>

definition async_cb :: "time \<Rightarrow> nat \<Rightarrow> entry \<Rightarrow> build \<Rightarrow> server" where
  "async_cb now i e b =
     (if b_results b ! i \<noteq> None then Crashed CallbackTwice
      else
        let results = (b_results b)[i := Some e]
        in if list_all (\<lambda>r. r \<noteq> None) results
           then main_callback now (Inr (map the results))
           else Building (b\<lparr>b_results := results\<rparr>))"

text \<open>
  One event at time \<open>now\<close>. The stream's error handler calls the callback of
  \<open>generateManifest\<close> itself, \<^verbatim>\<open>stream.on('error', function (err) { callback(err); })\<close>,
  not \<open>cb\<close>. \<open>stream.on('end')\<close> ends the encoder, whose last bytes and \<open>end\<close> are
  events of their own. An event for an index that has no pipeline does not occur and is
  skipped.
\<close>

definition on_event :: "time \<Rightarrow> event \<Rightarrow> build \<Rightarrow> server" where
  "on_event now ev b =
     (case ev of
        StreamData i data \<Rightarrow>
          (if i < length (b_pipelines b)
           then Building (b\<lparr>b_pipelines :=
                  (b_pipelines b)[i := stream_on_data data (b_pipelines b ! i)]\<rparr>)
           else Building b)
      | StreamEnd i \<Rightarrow> Building b
      | StreamError i err \<Rightarrow> main_callback now (Inl err)
      | GzipData i data \<Rightarrow>
          (if i < length (b_pipelines b)
           then Building (b\<lparr>b_pipelines :=
                  (b_pipelines b)[i := gzip_on_data data (b_pipelines b ! i)]\<rparr>)
           else Building b)
      | GzipEnd i \<Rightarrow>
          (if i < length (b_pipelines b)
           then async_cb now i (gzip_on_end (b_pipelines b ! i)) b
           else Building b))"

text \<open>
  After the server listens, a stream error would still call the callback of \<open>main\<close>,
  which throws; nothing else of the build touches the globals. A process that has
  ended stays ended.
\<close>

fun step :: "server \<Rightarrow> time \<times> event \<Rightarrow> server" where
  "step (Building b) (now, ev) = on_event now ev b"
| "step (Listening m ts) (now, StreamError i err) = main_callback now (Inl err)"
| "step (Listening m ts) (now, ev) = Listening m ts"
| "step (Crashed err) (now, ev) = Crashed err"

definition run :: "server \<Rightarrow> (time \<times> event) list \<Rightarrow> server" where
  "run s trace = foldl step s trace"

text \<open>
  \<open>generateManifest\<close> up to the return of \<open>async.map\<close>, at time \<open>now\<close>: the assets
  are discovered, \<open>start\<close> is read off the clock and every pipeline is opened. An
  exception of \<open>getAssets\<close> is not caught. With no asset \<open>async.map\<close> calls its final
  callback at once.
\<close>

definition generateManifest :: "config \<Rightarrow> string \<Rightarrow> fsnode \<Rightarrow> time \<Rightarrow> server" where
  "generateManifest cfg cwd fs now =
     (case getAssets cfg cwd fs of
        Inl err \<Rightarrow> Crashed err
      | Inr assets \<Rightarrow>
          (if assets = [] then main_callback now (Inr [])
           else Building
                  \<lparr>b_start = now,
                   b_pipelines = map (new_pipeline cfg cwd) assets,
                   b_results = replicate (length assets) None\<rparr>))"

text \<open>\<open>main\<close>: the process from its start at \<open>now\<close> through the events of \<open>trace\<close>.\<close>

definition main :: "config \<Rightarrow> string \<Rightarrow> fsnode \<Rightarrow> time \<Rightarrow> (time \<times> event) list \<Rightarrow> server" where
  "main cfg cwd fs now trace = run (generateManifest cfg cwd fs now) trace"

text \<open>What a client can observe of a state.\<close>

definition listening :: "server \<Rightarrow> bool" where
  "listening s = (case s of Listening m ts \<Rightarrow> True | _ \<Rightarrow> False)"

definition published :: "server \<Rightarrow> manifest option" where
  "published s = (case s of Listening m ts \<Rightarrow> Some m | _ \<Rightarrow> None)"

definition get_manifest :: "server \<Rightarrow> response option" where
  "get_manifest s = (case s of Listening m ts \<Rightarrow> Some (handleManifest m ts) | _ \<Rightarrow> None)"

text \<open>
  The pipelines that run at the same time: those of \<open>b_pipelines\<close>, which are the
  ones the iteratee has opened, whose index has no result yet.
\<close>

definition in_flight :: "server \<Rightarrow> nat" where
  "in_flight s =
     (case s of
        Building b \<Rightarrow>
          length (filter (\<lambda>i. b_results b ! i = None) [0 ..< length (b_pipelines b)])
      | _ \<Rightarrow> 0)"

text \<open>
  The two accumulators of a pipeline as functions of what the pipeline was given: the
  checksum of the chunks read (\<open>crc_of_chunks\<close>, above) and the number of bytes in the
  buffers the encoder emitted.
\<close>

definition compressed_of :: "buffer list \<Rightarrow> nat" where
  "compressed_of emitted = foldl (\<lambda>compressed data. compressed + length data) 0 emitted"

subsection \<open>Reading a response\<close>

definition response_headers :: "response \<Rightarrow> (string \<times> header_value) list" where
  "response_headers r = (case r of Json hs body \<Rightarrow> hs | _ \<Rightarrow> [])"

definition response_body :: "response \<Rightarrow> json option" where
  "response_body r = (case r of Json hs body \<Rightarrow> Some body | _ \<Rightarrow> None)"

definition json_elements :: "json \<Rightarrow> json list" where
  "json_elements j = (case j of JArr js \<Rightarrow> js | _ \<Rightarrow> [])"

definition json_fields :: "json \<Rightarrow> (string \<times> json) list" where
  "json_fields j = (case j of JObj kvs \<Rightarrow> kvs | _ \<Rightarrow> [])"

subsection \<open>What one pipeline was given in a run\<close>

text \<open>
  The chunks the read stream of asset \<open>i\<close> delivered and the buffers its encoder
  emitted, in the order of the run; and the part of a run before the encoder of asset
  \<open>i\<close> ended. \<open>pipeline_entry\<close> is the entry these determine.
\<close>

definition chunks_read :: "nat \<Rightarrow> (time \<times> event) list \<Rightarrow> buffer list" where
  "chunks_read i trace =
     concat (map (\<lambda>x. case snd x of StreamData j data \<Rightarrow> (if j = i then [data] else [])
                                     | _ \<Rightarrow> []) trace)"

definition emitted :: "nat \<Rightarrow> (time \<times> event) list \<Rightarrow> buffer list" where
  "emitted i trace =
     concat (map (\<lambda>x. case snd x of GzipData j data \<Rightarrow> (if j = i then [data] else [])
                                     | _ \<Rightarrow> []) trace)"

definition before_end :: "nat \<Rightarrow> (time \<times> event) list \<Rightarrow> (time \<times> event) list" where
  "before_end i trace = takeWhile (\<lambda>x. snd x \<noteq> GzipEnd i) trace"

definition pipeline_entry :: "string \<Rightarrow> nat \<Rightarrow> (time \<times> event) list \<Rightarrow> entry" where
  "pipeline_entry entry_name i trace =
     \<lparr>name = entry_name,
      compressed = compressed_of (emitted i (before_end i trace)),
      checksum = crc_of_chunks (chunks_read i (before_end i trace))\<rparr>"

subsection \<open>A content root and a run used as examples\<close>

text \<open>
  The content root of the specification's scenario, with one byte for the asset: a
  directory \<open>weapons\<close> holding \<open>gun.pk3\<close>, and \<open>readme.txt\<close> beside it. The run reads
  the asset in one chunk and gets four bytes from the encoder.
\<close>

definition example_entries :: "(string \<times> fsnode) list" where
  "example_entries =
     [(''weapons'', Dir [(''gun.pk3'', File [97])]), (''readme.txt'', File [])]"

definition example_root :: fsnode where
  "example_root = Dir example_entries"

definition example_trace :: "(time \<times> event) list" where
  "example_trace =
     [(2000, StreamData 0 [97]), (3000, StreamEnd 0),
      (4000, GzipData 0 [0, 0, 0, 0]), (5000, GzipEnd 0)]"

definition example_manifest :: manifest where
  "example_manifest = [\<lparr>name = ''weapons/gun.pk3'', compressed = 4, checksum = 3904355907\<rparr>]"

text \<open>
  A configuration file that sets a key \<open>concurrency\<close>, and a flat content root with
  three assets.
\<close>

definition limited_config :: config where
  "limited_config = loadConfig (Some \<lparr>file_root = None, file_port = None,
     file_validAssets = None, file_other = [(''concurrency'', ''2'')]\<rparr>)"

definition three_assets :: fsnode where
  "three_assets = Dir [(''a.pk3'', File []), (''b.pk3'', File []), (''c.pk3'', File [])]"






text \<open>
  A configuration file that sets the allow-list to \<open>.txt\<close> and \<open>.PK3\<close>, a content
  root with three files of which two have such an extension, one of them two
  directories deep, and a run in which the two encoders end at 3000 and at 5000. The
  manifest is the one that run builds.
\<close>

definition listed_config :: config where
  "listed_config = loadConfig (Some \<lparr>file_root = None, file_port = None,
     file_validAssets = Some (Some [''.txt'', ''.PK3'']), file_other = []\<rparr>)"

definition listed_entries :: "(string \<times> fsnode) list" where
  "listed_entries =
     [(''maps'', Dir [(''deep'', Dir [(''MAP.PK3'', File [])])]),
      (''gun.pk3'', File [97]),
      (''readme.txt'', File [])]"

definition listed_trace :: "(time \<times> event) list" where
  "listed_trace =
     [(2000, StreamEnd 0), (3000, GzipEnd 0), (4000, StreamEnd 1), (5000, GzipEnd 1)]"

definition listed_manifest :: manifest where
  "listed_manifest =
     [\<lparr>name = ''maps/deep/MAP.PK3'', compressed = 0, checksum = 0\<rparr>,
      \<lparr>name = ''readme.txt'', compressed = 0, checksum = 0\<rparr>]"
subsection \<open>The invariant of a build\<close>

text \<open>
  The invariant of a running build after the events \<open>tr\<close>: every pipeline holds its
  name and the two accumulators of what it was given so far; an index without a result
  has not seen its encoder end; a result is the entry of its pipeline.
\<close>

definition build_inv :: "string list \<Rightarrow> (time \<times> event) list \<Rightarrow> build \<Rightarrow> bool" where
  "build_inv names tr b \<longleftrightarrow>
     length (b_pipelines b) = length names \<and> length (b_results b) = length names \<and>
     (\<forall>i<length names.
        p_name (b_pipelines b ! i) = names ! i \<and>
        p_crc (b_pipelines b ! i) = crc_of_chunks (chunks_read i tr) \<and>
        p_compressed (b_pipelines b ! i) = compressed_of (emitted i tr) \<and>
        (case b_results b ! i of
           None \<Rightarrow> GzipEnd i \<notin> snd ` set tr
         | Some e \<Rightarrow> GzipEnd i \<in> snd ` set tr \<and> e = pipeline_entry (names ! i) i tr))"

definition manifest_inv :: "string list \<Rightarrow> (time \<times> event) list \<Rightarrow> manifest \<Rightarrow> bool" where
  "manifest_inv names tr m \<longleftrightarrow>
     length m = length names \<and>
     (\<forall>i<length names. GzipEnd i \<in> snd ` set tr \<and> m ! i = pipeline_entry (names ! i) i tr)"

definition server_inv :: "string list \<Rightarrow> (time \<times> event) list \<Rightarrow> server \<Rightarrow> bool" where
  "server_inv names tr s =
     (case s of Building b \<Rightarrow> build_inv names tr b
              | Listening m ts \<Rightarrow> manifest_inv names tr m
              | Crashed e \<Rightarrow> True)"

section \<open>Properties\<close>

subsection \<open>Checksum\<close>


lemma crc_seed_zero: "crc_seed = 0"
  by (simp add: crc_seed_def crc32_unsigned_def crc32_raw_def to_int32_def)




subsection \<open>Serving an asset\<close>

lemma find_asset_None:
  "find_asset m p r = None \<longleftrightarrow> \<not> (\<exists>e\<in>set m. name e = p \<and> Finite (checksum e) = r)"
  by (induction m) auto


lemma handleAsset_unfold:
  "handleAsset cfg cwd m (basedir, cs, basename) =
     (if find_asset m (path_join [basedir, basename]) (parseInt cs) = None then Status 400
      else SendFile (path_resolve cwd [cfg_root cfg, path_join [basedir, basename]]))"
  by (simp add: handleAsset_def Let_def split: option.split)

lemma to_double_exact: "n < 2 ^ 53 \<Longrightarrow> to_double n = Finite n"
  by (simp add: to_double_def)


subsection \<open>Runs of the build\<close>

lemma run_Nil [simp]: "run s [] = s"
  by (simp add: run_def)

lemma run_Cons [simp]: "run s (x # xs) = run (step s x) xs"
  by (simp add: run_def)

lemma run_append: "run s (xs @ ys) = run (run s xs) ys"
  by (simp add: run_def)

lemma run_snoc: "run s (xs @ [x]) = step (run s xs) x"
  by (simp add: run_def)

lemma step_Crashed [simp]: "step (Crashed e) x = Crashed e"
  by (cases x) simp

lemma run_Crashed [simp]: "run (Crashed e) trace = Crashed e"
  by (induction trace) simp_all

lemma step_Listening:
  "step (Listening m ts) x = Listening m ts \<or> (\<exists>e. step (Listening m ts) x = Crashed e)"
proof (cases x)
  case (Pair now ev)
  then show ?thesis by (cases ev) (simp_all add: main_callback_def)
qed

lemma run_Listening:
  "run (Listening m ts) trace = Listening m ts \<or> (\<exists>e. run (Listening m ts) trace = Crashed e)"
proof (induction trace rule: rev_induct)
  case Nil
  show ?case by simp
next
  case (snoc x xs)
  from snoc.IH show ?case
  proof
    assume "run (Listening m ts) xs = Listening m ts"
    then show ?thesis using step_Listening [of m ts x] by (simp add: run_snoc)
  next
    assume "\<exists>e. run (Listening m ts) xs = Crashed e"
    then show ?thesis by (auto simp: run_snoc)
  qed
qed

text \<open>While the build runs, every earlier state of the run was a running build too.\<close>

lemma run_Building_prefix:
  assumes "run s (xs @ ys) = Building b"
  shows "\<exists>b'. run s xs = Building b'"
proof (cases "run s xs")
  case (Building b')
  then show ?thesis by simp
next
  case (Listening m ts)
  with run_Listening [of m ts ys] assms show ?thesis by (auto simp: run_append)
next
  case (Crashed e)
  with assms show ?thesis by (simp add: run_append)
qed

lemma run_Building_take:
  assumes "run s trace = Building b"
  shows "\<exists>b'. run s (take k trace) = Building b'"
proof -
  from assms have "run s (take k trace @ drop k trace) = Building b" by simp
  then show ?thesis by (rule run_Building_prefix)
qed

lemma on_event_start:
  "on_event now ev b = Building b' \<Longrightarrow> b_start b' = b_start b"
  by (cases ev)
     (auto simp: on_event_def async_cb_def main_callback_def Let_def split: if_splits)

lemma run_Building_start:
  "run (Building b) trace = Building b' \<Longrightarrow> b_start b' = b_start b"
proof (induction trace arbitrary: b' rule: rev_induct)
  case Nil
  then show ?case by simp
next
  case (snoc x xs)
  from snoc.prems obtain b1 where b1: "run (Building b) xs = Building b1"
    using run_Building_prefix by blast
  obtain now ev where x: "x = (now, ev)" by (cases x)
  from snoc.prems b1 x have "on_event now ev b1 = Building b'" by (simp add: run_snoc)
  then have "b_start b' = b_start b1" by (rule on_event_start)
  with snoc.IH [OF b1] show ?case by simp
qed

text \<open>
  The state turns from a running build into a listening server only at a \<open>GzipEnd\<close>
  event, and the time stored is the time of that event.
\<close>

lemma on_event_Listening:
  "on_event now ev b = Listening m ts \<Longrightarrow> ts = now \<and> (\<exists>i. ev = GzipEnd i)"
  by (cases ev)
     (auto simp: on_event_def async_cb_def main_callback_def Let_def split: if_splits)

lemma run_Building_Listening:
  assumes "run (Building b) trace = Listening m ts"
  shows "\<exists>pre i post b'. trace = pre @ (ts, GzipEnd i) # post
                        \<and> run (Building b) pre = Building b'
                        \<and> run (Building b) (pre @ [(ts, GzipEnd i)]) = Listening m ts"
  using assms
proof (induction trace rule: rev_induct)
  case Nil
  then show ?case by simp
next
  case (snoc x xs)
  obtain now ev where x: "x = (now, ev)" by (cases x)
  show ?case
  proof (cases "run (Building b) xs")
    case (Building b1)
    with snoc.prems x have "on_event now ev b1 = Listening m ts" by (simp add: run_snoc)
    then obtain i where "ts = now" "ev = GzipEnd i" using on_event_Listening by blast
    with x Building snoc.prems
    have "xs @ [x] = xs @ (ts, GzipEnd i) # [] \<and> run (Building b) xs = Building b1
          \<and> run (Building b) (xs @ [(ts, GzipEnd i)]) = Listening m ts"
      by simp
    then show ?thesis by blast
  next
    case (Listening m' ts')
    with snoc.prems step_Listening [of m' ts' x] have "m' = m" "ts' = ts"
      by (auto simp: run_snoc)
    with Listening snoc.IH obtain pre i post b'
      where "xs = pre @ (ts, GzipEnd i) # post" "run (Building b) pre = Building b'"
        "run (Building b) (pre @ [(ts, GzipEnd i)]) = Listening m ts"
      by blast
    then have "xs @ [x] = pre @ (ts, GzipEnd i) # (post @ [x])
               \<and> run (Building b) pre = Building b'
               \<and> run (Building b) (pre @ [(ts, GzipEnd i)]) = Listening m ts" by simp
    then show ?thesis by blast
  next
    case (Crashed e)
    with snoc.prems show ?thesis by (simp add: run_snoc)
  qed
qed

text \<open>What \<open>generateManifest\<close> leaves behind, by the outcome of discovery.\<close>

lemma generateManifest_cases:
  "(\<exists>e. getAssets cfg cwd fs = Inl e \<and> generateManifest cfg cwd fs now = Crashed e)
   \<or> (getAssets cfg cwd fs = Inr [] \<and> generateManifest cfg cwd fs now = Listening [] now)
   \<or> (\<exists>assets. getAssets cfg cwd fs = Inr assets \<and> assets \<noteq> []
        \<and> generateManifest cfg cwd fs now =
            Building \<lparr>b_start = now, b_pipelines = map (new_pipeline cfg cwd) assets,
                      b_results = replicate (length assets) None\<rparr>)"
  by (cases "getAssets cfg cwd fs")
     (auto simp: generateManifest_def main_callback_def)

subsection \<open>A read error during the build\<close>

text \<open>
  Claim C6. When the read stream of any asset reports an error while the build is
  running, the callback of \<open>main\<close> gets that error and throws it: the process ends with
  this error, at no moment of the run was a manifest published or the server listening,
  and whatever events follow change nothing.
\<close>

theorem read_error_is_fatal_at_startup:
  assumes "trace = pre @ (now, StreamError i err) # post"
      and "main cfg cwd fs t0 pre = Building b"
  shows "main cfg cwd fs t0 trace = Crashed err
         \<and> (\<forall>k. published (main cfg cwd fs t0 (take k trace)) = None
                \<and> \<not> listening (main cfg cwd fs t0 (take k trace)))"
proof
  let ?s0 = "generateManifest cfg cwd fs t0"
  from assms(2) have pre: "run ?s0 pre = Building b" by (simp add: main_def)
  have at_error: "run ?s0 (pre @ [(now, StreamError i err)]) = Crashed err"
    by (simp add: run_snoc pre on_event_def main_callback_def)
  have "run ?s0 trace = run (run ?s0 (pre @ [(now, StreamError i err)])) post"
    unfolding assms(1) by (simp add: run_append)
  then show final: "main cfg cwd fs t0 trace = Crashed err"
    by (simp add: main_def at_error)
  show "\<forall>k. published (main cfg cwd fs t0 (take k trace)) = None
            \<and> \<not> listening (main cfg cwd fs t0 (take k trace))"
  proof
    fix k
    show "published (main cfg cwd fs t0 (take k trace)) = None
          \<and> \<not> listening (main cfg cwd fs t0 (take k trace))"
    proof (cases "k \<le> length pre")
      case True
      then have "take k trace = take k pre" by (simp add: assms(1))
      moreover from pre obtain b' where "run ?s0 (take k pre) = Building b'"
        using run_Building_take by blast
      ultimately show ?thesis by (simp add: main_def published_def listening_def)
    next
      case False
      then have "take k trace
                 = (pre @ [(now, StreamError i err)]) @ take (k - Suc (length pre)) post"
        by (simp add: assms(1) take_Cons' Suc_diff_le)
      then have "run ?s0 (take k trace) = Crashed err"
        by (metis at_error run_append run_Crashed)
      then show ?thesis by (simp add: main_def published_def listening_def)
    qed
  qed
qed

subsection \<open>The example, evaluated\<close>

lemma crc32_of_a: "crc32_unsigned [97] None = 3904355907"
  by code_simp

lemma example_crc: "crc_on_data crc_seed [97] = 3904355907"
  using crc32_of_a
  by (simp add: crc_on_data_def crc_seed_zero crc32_unsigned_def crc32_raw_def to_int32_def)

lemma example_name: "path_relative ''/srv'' ''pk3_assets'' ''pk3_assets/weapons/gun.pk3'' = ''weapons/gun.pk3''"
  by code_simp

lemma example_assets:
  "getAssets default_config ''/srv'' example_root = Inr [''pk3_assets/weapons/gun.pk3'']"
  by code_simp

lemma default_root: "cfg_root default_config = ''pk3_assets''"
  by (simp add: default_config_def)

lemma example_start:
  "generateManifest default_config ''/srv'' example_root now =
     Building \<lparr>b_start = now,
       b_pipelines = [\<lparr>p_name = ''weapons/gun.pk3'', p_crc = crc_seed,
                        p_compressed = 0, p_size = 0\<rparr>],
       b_results = [None]\<rparr>"
  by (simp add: generateManifest_def example_assets new_pipeline_def example_name
      default_root)

lemma example_run:
  "main default_config ''/srv'' example_root 1000 example_trace
     = Listening example_manifest 5000"
  by (simp add: main_def example_start example_trace_def on_event_def stream_on_data_def
      gzip_on_data_def gzip_on_end_def async_cb_def main_callback_def example_crc
      example_manifest_def)


lemma listed_root: "cfg_root listed_config = ''pk3_assets''"
  by (simp add: listed_config_def loadConfig_def default_config_def)

lemma listed_allow: "cfg_validAssets listed_config = Some [''.txt'', ''.PK3'']"
  by (simp add: listed_config_def loadConfig_def)

lemma listed_assets:
  "getAssets listed_config ''/srv'' (Dir listed_entries)
     = Inr [''pk3_assets/maps/deep/MAP.PK3'', ''pk3_assets/readme.txt'']"
  by code_simp

lemma listed_names:
  "path_relative ''/srv'' ''pk3_assets'' ''pk3_assets/maps/deep/MAP.PK3'' = ''maps/deep/MAP.PK3''
   \<and> path_relative ''/srv'' ''pk3_assets'' ''pk3_assets/readme.txt'' = ''readme.txt''"
  by code_simp

lemma listed_start:
  "generateManifest listed_config ''/srv'' (Dir listed_entries) now =
     Building \<lparr>b_start = now,
       b_pipelines = [\<lparr>p_name = ''maps/deep/MAP.PK3'', p_crc = 0, p_compressed = 0, p_size = 0\<rparr>,
                      \<lparr>p_name = ''readme.txt'', p_crc = 0, p_compressed = 0, p_size = 0\<rparr>],
       b_results = [None, None]\<rparr>"
  by (simp add: generateManifest_def listed_assets new_pipeline_def listed_names
      listed_root crc_seed_zero)

lemma listed_first_end:
  "main listed_config ''/srv'' (Dir listed_entries) 1000 [(2000, StreamEnd 0), (3000, GzipEnd 0)]
     = Building \<lparr>b_start = 1000,
         b_pipelines = [\<lparr>p_name = ''maps/deep/MAP.PK3'', p_crc = 0, p_compressed = 0, p_size = 0\<rparr>,
                        \<lparr>p_name = ''readme.txt'', p_crc = 0, p_compressed = 0, p_size = 0\<rparr>],
         b_results = [Some \<lparr>name = ''maps/deep/MAP.PK3'', compressed = 0, checksum = 0\<rparr>, None]\<rparr>"
  by (simp add: main_def listed_start on_event_def gzip_on_end_def async_cb_def)

lemma listed_run:
  "main listed_config ''/srv'' (Dir listed_entries) 1000 listed_trace
     = Listening listed_manifest 5000"
  by (simp add: main_def listed_start listed_trace_def on_event_def gzip_on_end_def
      async_cb_def main_callback_def listed_manifest_def)

theorem read_error_is_fatal_at_startup_witness:
  "main default_config ''/srv'' example_root 1000
     [(2000, StreamData 0 []), (2500, StreamError 0 (ReadError ''EIO'')),
      (4000, GzipData 0 [0, 0, 0, 0]), (5000, GzipEnd 0)]
     = Crashed (ReadError ''EIO'')
   \<and> published (main default_config ''/srv'' example_root 1000
        (take 4 [(2000, StreamData 0 []), (2500, StreamError 0 (ReadError ''EIO'')),
                 (4000, GzipData 0 [0, 0, 0, 0]), (5000, GzipEnd 0)])) = None"
proof -
  have building: "main default_config ''/srv'' example_root 1000 [(2000, StreamData 0 [])]
     = Building \<lparr>b_start = 1000,
         b_pipelines = [stream_on_data [] \<lparr>p_name = ''weapons/gun.pk3'', p_crc = crc_seed,
                          p_compressed = 0, p_size = 0\<rparr>],
         b_results = [None]\<rparr>"
    by (simp add: main_def example_start on_event_def)
  have split: "[(2000, StreamData 0 []), (2500, StreamError 0 (ReadError ''EIO'')),
      (4000, GzipData 0 [0, 0, 0, 0]), (5000 :: time, GzipEnd 0)]
     = [(2000, StreamData 0 [])] @ (2500, StreamError 0 (ReadError ''EIO''))
        # [(4000, GzipData 0 [0, 0, 0, 0]), (5000, GzipEnd 0)]"
    by simp
  from read_error_is_fatal_at_startup [OF split building]
  show ?thesis by blast
qed

subsection \<open>Serving the manifest\<close>

text \<open>
  Claim C2, as the claim states it, fails: the third field of an element is named
  \<open>compressed\<close> on the wire, not \<open>compressedSize\<close>. The manifest of the example run
  is served with the fields \<open>name\<close>, \<open>compressed\<close>, \<open>checksum\<close>.
\<close>

theorem manifest_field_compressedSize_counterexample:
  "map (map fst \<circ> json_fields)
     (json_elements (the (response_body (handleManifest example_manifest 5000))))
     = [[''name'', ''compressed'', ''checksum'']]
   \<and> ''compressedSize'' \<notin> set [''name'', ''compressed'', ''checksum'']"
  by (simp add: handleManifest_def response_body_def manifest_json_def json_elements_def
      json_fields_def entry_json_def example_manifest_def)

subsection \<open>What the entries of a built manifest are\<close>

lemma crc_of_chunks_snoc: "crc_of_chunks (cs @ [d]) = crc_on_data (crc_of_chunks cs) d"
  by (simp add: crc_of_chunks_def)

lemma compressed_of_snoc: "compressed_of (bs @ [d]) = compressed_of bs + length d"
  by (simp add: compressed_of_def)

lemma chunks_read_snoc:
  "chunks_read i (tr @ [(now, ev)]) =
     chunks_read i tr @ (case ev of StreamData j d \<Rightarrow> (if j = i then [d] else []) | _ \<Rightarrow> [])"
  by (simp add: chunks_read_def)

lemma emitted_snoc:
  "emitted i (tr @ [(now, ev)]) =
     emitted i tr @ (case ev of GzipData j d \<Rightarrow> (if j = i then [d] else []) | _ \<Rightarrow> [])"
  by (simp add: emitted_def)

lemma before_end_snoc:
  "before_end i (tr @ [(now, ev)]) =
     (if GzipEnd i \<in> snd ` set tr then before_end i tr
      else if ev = GzipEnd i then tr else tr @ [(now, ev)])"
proof (cases "GzipEnd i \<in> snd ` set tr")
  case True
  then obtain x where "x \<in> set tr" "\<not> snd x \<noteq> GzipEnd i" by auto
  then have "takeWhile (\<lambda>x. snd x \<noteq> GzipEnd i) (tr @ [(now, ev)])
               = takeWhile (\<lambda>x. snd x \<noteq> GzipEnd i) tr"
    by (rule takeWhile_append1)
  with True show ?thesis by (simp add: before_end_def)
next
  case False
  then have "\<And>x. x \<in> set tr \<Longrightarrow> snd x \<noteq> GzipEnd i" by force
  then have "takeWhile (\<lambda>x. snd x \<noteq> GzipEnd i) (tr @ [(now, ev)])
               = tr @ takeWhile (\<lambda>x. snd x \<noteq> GzipEnd i) [(now, ev)]"
    by (rule takeWhile_append2)
  with False show ?thesis by (simp add: before_end_def)
qed

lemma before_end_all: "GzipEnd i \<notin> snd ` set tr \<Longrightarrow> before_end i tr = tr"
  by (force simp: before_end_def)

lemma pipeline_entry_snoc:
  "GzipEnd i \<in> snd ` set tr \<Longrightarrow> pipeline_entry n i (tr @ [x]) = pipeline_entry n i tr"
  by (cases x) (simp add: pipeline_entry_def before_end_snoc)

lemma pipeline_entry_at_end:
  "GzipEnd i \<notin> snd ` set tr \<Longrightarrow>
   pipeline_entry n i (tr @ [(now, GzipEnd i)])
     = \<lparr>name = n, compressed = compressed_of (emitted i tr),
        checksum = crc_of_chunks (chunks_read i tr)\<rparr>"
  by (simp add: pipeline_entry_def before_end_snoc)

lemma manifest_inv_snoc: "manifest_inv names tr m \<Longrightarrow> manifest_inv names (tr @ [x]) m"
  by (auto simp: manifest_inv_def pipeline_entry_snoc)

lemma build_inv_StreamData:
  assumes "build_inv names tr b" and "i < length (b_pipelines b)"
  shows "build_inv names (tr @ [(now, StreamData i d)])
           (b\<lparr>b_pipelines := (b_pipelines b)[i := stream_on_data d (b_pipelines b ! i)]\<rparr>)"
  using assms
  by (auto simp: build_inv_def nth_list_update stream_on_data_def chunks_read_snoc
      emitted_snoc crc_of_chunks_snoc pipeline_entry_snoc split: option.splits)

lemma build_inv_GzipData:
  assumes "build_inv names tr b" and "i < length (b_pipelines b)"
  shows "build_inv names (tr @ [(now, GzipData i d)])
           (b\<lparr>b_pipelines := (b_pipelines b)[i := gzip_on_data d (b_pipelines b ! i)]\<rparr>)"
  using assms
  by (auto simp: build_inv_def nth_list_update gzip_on_data_def chunks_read_snoc
      emitted_snoc compressed_of_snoc pipeline_entry_snoc split: option.splits)

lemma build_inv_skip:
  assumes "build_inv names tr b" and "\<forall>i<length names. ev \<noteq> GzipEnd i"
      and "\<forall>i<length names. \<forall>d. ev \<noteq> StreamData i d \<and> ev \<noteq> GzipData i d"
  shows "build_inv names (tr @ [(now, ev)]) b"
  using assms
  by (cases ev)
     (auto simp: build_inv_def chunks_read_snoc emitted_snoc pipeline_entry_snoc
       split: option.splits)

lemma build_inv_GzipEnd:
  assumes inv: "build_inv names tr b" and i: "i < length (b_pipelines b)"
  shows "server_inv names (tr @ [(now, GzipEnd i)])
           (async_cb now i (gzip_on_end (b_pipelines b ! i)) b)"
proof (cases "b_results b ! i")
  case (Some e)
  then show ?thesis by (simp add: async_cb_def server_inv_def)
next
  case None
  let ?tr = "tr @ [(now, GzipEnd i)]"
  let ?e = "gzip_on_end (b_pipelines b ! i)"
  let ?results = "(b_results b)[i := Some ?e]"
  from inv i have n: "i < length names" "length (b_results b) = length names"
    by (simp_all add: build_inv_def)
  from inv n None have fresh: "GzipEnd i \<notin> snd ` set tr"
    by (auto simp: build_inv_def split: option.splits)
  from inv n have e: "?e = pipeline_entry (names ! i) i ?tr"
    by (simp add: build_inv_def gzip_on_end_def pipeline_entry_at_end [OF fresh])
  have other: "\<And>j e'. j < length names \<Longrightarrow> b_results b ! j = Some e' \<Longrightarrow>
                 GzipEnd j \<in> snd ` set ?tr \<and> e' = pipeline_entry (names ! j) j ?tr"
  proof -
    fix j e' assume "j < length names" "b_results b ! j = Some e'"
    with inv have "GzipEnd j \<in> snd ` set tr \<and> e' = pipeline_entry (names ! j) j tr"
      by (auto simp: build_inv_def split: option.splits)
    then show "GzipEnd j \<in> snd ` set ?tr \<and> e' = pipeline_entry (names ! j) j ?tr"
      by (simp add: pipeline_entry_snoc)
  qed
  show ?thesis
  proof (cases "list_all (\<lambda>r. r \<noteq> None) ?results")
    case True
    have "manifest_inv names ?tr (map the ?results)"
      unfolding manifest_inv_def
    proof (intro conjI allI impI)
      show "length (map the ?results) = length names" using n by simp
    next
      fix j assume j: "j < length names"
      show "GzipEnd j \<in> snd ` set ?tr"
      proof (cases "j = i")
        case False
        from True j n have "?results ! j \<noteq> None" by (simp add: list_all_length)
        with False obtain e' where "b_results b ! j = Some e'" by auto
        with other j show ?thesis by blast
      qed simp
      show "map the ?results ! j = pipeline_entry (names ! j) j ?tr"
      proof (cases "j = i")
        case True
        with n e show ?thesis by simp
      next
        case False
        from True j n have "?results ! j \<noteq> None" by (simp add: list_all_length)
        with False obtain e' where e': "b_results b ! j = Some e'" by auto
        with other j have "e' = pipeline_entry (names ! j) j ?tr" by blast
        with False j n e' show ?thesis by simp
      qed
    qed
    with None True show ?thesis
      by (simp add: async_cb_def server_inv_def main_callback_def Let_def)
  next
    case False
    have "build_inv names ?tr (b\<lparr>b_results := ?results\<rparr>)"
      unfolding build_inv_def
    proof (intro conjI allI impI)
      show "length (b_pipelines (b\<lparr>b_results := ?results\<rparr>)) = length names"
        using inv by (simp add: build_inv_def)
      show "length (b_results (b\<lparr>b_results := ?results\<rparr>)) = length names"
        using n by simp
    next
      fix j assume j: "j < length names"
      from inv j show "p_name (b_pipelines (b\<lparr>b_results := ?results\<rparr>) ! j) = names ! j"
        by (simp add: build_inv_def)
      from inv j show "p_crc (b_pipelines (b\<lparr>b_results := ?results\<rparr>) ! j)
                        = crc_of_chunks (chunks_read j ?tr)"
        by (simp add: build_inv_def chunks_read_snoc)
      from inv j show "p_compressed (b_pipelines (b\<lparr>b_results := ?results\<rparr>) ! j)
                        = compressed_of (emitted j ?tr)"
        by (simp add: build_inv_def emitted_snoc)
      show "case b_results (b\<lparr>b_results := ?results\<rparr>) ! j of
              None \<Rightarrow> GzipEnd j \<notin> snd ` set ?tr
            | Some e' \<Rightarrow> GzipEnd j \<in> snd ` set ?tr \<and> e' = pipeline_entry (names ! j) j ?tr"
      proof (cases "j = i")
        case True
        with n e show ?thesis by simp
      next
        case ne: False
        show ?thesis
        proof (cases "b_results b ! j")
          case None
          with inv j have "GzipEnd j \<notin> snd ` set tr"
            by (auto simp: build_inv_def split: option.splits)
          with ne None show ?thesis by simp
        next
          case (Some e')
          from other [OF j Some] ne Some show ?thesis by simp
        qed
      qed
    qed
    with None False show ?thesis
      by (simp add: async_cb_def server_inv_def Let_def)
  qed
qed

lemma server_inv_step:
  assumes "server_inv names tr s"
  shows "server_inv names (tr @ [x]) (step s x)"
proof (cases s)
  case (Building b)
  with assms have inv: "build_inv names tr b" by (simp add: server_inv_def)
  then have len: "length (b_pipelines b) = length names" by (simp add: build_inv_def)
  obtain now ev where x: "x = (now, ev)" by (cases x)
  have "server_inv names (tr @ [(now, ev)]) (on_event now ev b)"
  proof (cases ev)
    case (StreamData i d)
    show ?thesis
    proof (cases "i < length (b_pipelines b)")
      case True
      from build_inv_StreamData [OF inv True] StreamData True show ?thesis
        by (simp add: on_event_def server_inv_def)
    next
      case False
      with len StreamData have "build_inv names (tr @ [(now, ev)]) b"
        by (intro build_inv_skip [OF inv]) auto
      with False StreamData show ?thesis by (simp add: on_event_def server_inv_def)
    qed
  next
    case (StreamEnd i)
    then have "build_inv names (tr @ [(now, ev)]) b"
      by (intro build_inv_skip [OF inv]) auto
    with StreamEnd show ?thesis by (simp add: on_event_def server_inv_def)
  next
    case (StreamError i err)
    then show ?thesis by (simp add: on_event_def server_inv_def main_callback_def)
  next
    case (GzipData i d)
    show ?thesis
    proof (cases "i < length (b_pipelines b)")
      case True
      from build_inv_GzipData [OF inv True] GzipData True show ?thesis
        by (simp add: on_event_def server_inv_def)
    next
      case False
      with len GzipData have "build_inv names (tr @ [(now, ev)]) b"
        by (intro build_inv_skip [OF inv]) auto
      with False GzipData show ?thesis by (simp add: on_event_def server_inv_def)
    qed
  next
    case (GzipEnd i)
    show ?thesis
    proof (cases "i < length (b_pipelines b)")
      case True
      from build_inv_GzipEnd [OF inv True] GzipEnd True show ?thesis
        by (simp add: on_event_def)
    next
      case False
      with len GzipEnd have "build_inv names (tr @ [(now, ev)]) b"
        by (intro build_inv_skip [OF inv]) auto
      with False GzipEnd show ?thesis by (simp add: on_event_def server_inv_def)
    qed
  qed
  with Building x show ?thesis by simp
next
  case (Listening m ts)
  with assms have "manifest_inv names (tr @ [x]) m"
    by (simp add: server_inv_def manifest_inv_snoc)
  with Listening step_Listening [of m ts x] show ?thesis
    by (auto simp: server_inv_def)
next
  case (Crashed e)
  then show ?thesis by (simp add: server_inv_def)
qed

lemma server_inv_run:
  "server_inv names [] s \<Longrightarrow> server_inv names tr (run s tr)"
proof (induction tr rule: rev_induct)
  case Nil
  then show ?case by simp
next
  case (snoc x tr)
  then show ?case by (simp add: run_snoc server_inv_step)
qed

lemma generateManifest_inv:
  assumes "getAssets cfg cwd fs = Inr assets"
  shows "server_inv (map (path_relative cwd (cfg_root cfg)) assets) []
           (generateManifest cfg cwd fs now)"
proof (cases "assets = []")
  case True
  with assms show ?thesis
    by (simp add: generateManifest_def main_callback_def server_inv_def manifest_inv_def)
next
  case False
  with assms show ?thesis
    by (simp add: generateManifest_def server_inv_def build_inv_def new_pipeline_def
        crc_of_chunks_def chunks_read_def emitted_def compressed_of_def)
qed

text \<open>
  The entries of the manifest the server publishes: one for every discovered asset, in
  the order of discovery, each with the asset's path relative to the root, the number
  of bytes its encoder emitted and the checksum of the chunks its stream delivered.
\<close>

lemma published_entries:
  assumes "getAssets cfg cwd fs = Inr assets"
      and "main cfg cwd fs now trace = Listening m ts"
  shows "m = map (\<lambda>i. pipeline_entry (path_relative cwd (cfg_root cfg) (assets ! i)) i trace)
               [0 ..< length assets]"
proof -
  let ?names = "map (path_relative cwd (cfg_root cfg)) assets"
  from server_inv_run [OF generateManifest_inv [OF assms(1), where now = now], where tr = trace]
    assms(2)
  have "manifest_inv ?names trace m" by (simp add: main_def server_inv_def)
  then show ?thesis
    by (intro nth_equalityI) (simp_all add: manifest_inv_def)
qed

lemma published_names:
  assumes "getAssets cfg cwd fs = Inr assets"
      and "main cfg cwd fs now trace = Listening m ts"
  shows "map name m = map (path_relative cwd (cfg_root cfg)) assets"
  unfolding published_entries [OF assms]
  by (intro nth_equalityI) (simp_all add: pipeline_entry_def)

lemma Listening_has_assets:
  assumes "main cfg cwd fs now trace = Listening m ts"
  shows "\<exists>assets. getAssets cfg cwd fs = Inr assets"
proof (cases "getAssets cfg cwd fs")
  case (Inl e)
  with assms show ?thesis by (simp add: main_def generateManifest_def)
qed simp

subsection \<open>Splitting and joining at slashes\<close>


lemma split_slash_nonempty [simp]: "split_slash s \<noteq> []"
  by (induction s) (auto split: list.splits)

lemma split_slash_no_slash: "CHR ''/'' \<notin> set s \<Longrightarrow> split_slash s = [s]"
  by (induction s) auto

lemma split_slash_append:
  "split_slash (a @ CHR ''/'' # b) = split_slash a @ split_slash b"
proof (induction a)
  case Nil
  show ?case by simp
next
  case (Cons c a)
  obtain s ss where "split_slash a = s # ss" by (cases "split_slash a") auto
  with Cons show ?case by (simp split: list.splits)
qed

lemma split_slash_elems: "x \<in> set (split_slash s) \<Longrightarrow> CHR ''/'' \<notin> set x"
proof (induction s arbitrary: x)
  case Nil
  then show ?case by simp
next
  case (Cons c s)
  then show ?case by (auto split: if_splits list.splits)
qed

lemma join_slash_snoc:
  "join_slash (xs @ [y]) = (if xs = [] then y else join_slash xs @ CHR ''/'' # y)"
  by (induction xs rule: join_slash.induct) auto

lemma join_slash_Cons:
  "join_slash (x # xs) = (if xs = [] then x else x @ CHR ''/'' # join_slash xs)"
  by (cases xs) auto

lemma split_join_slash:
  "xs \<noteq> [] \<Longrightarrow> \<forall>x\<in>set xs. CHR ''/'' \<notin> set x \<Longrightarrow> split_slash (join_slash xs) = xs"
proof (induction xs rule: join_slash.induct)
  case 1
  then show ?case by simp
next
  case (2 s)
  then show ?case by (simp add: split_slash_no_slash)
next
  case (3 s t ss)
  then show ?case by (simp add: split_slash_append split_slash_no_slash)
qed

lemma join_slash_eq_Nil: "join_slash xs = [] \<longleftrightarrow> xs = [] \<or> xs = [[]]"
  by (induction xs rule: join_slash.induct) auto

lemma hd_join_slash:
  "xs \<noteq> [] \<Longrightarrow> hd xs \<noteq> [] \<Longrightarrow> hd (join_slash xs) = hd (hd xs)"
  by (cases xs rule: join_slash.cases) auto

lemma last_join_slash:
  "xs \<noteq> [] \<Longrightarrow> last xs \<noteq> [] \<Longrightarrow> last (join_slash xs) = last (last xs)"
  by (induction xs rule: join_slash.induct) (auto simp: join_slash_eq_Nil)

lemma path_segments_join:
  assumes "\<forall>x\<in>set xs. x \<noteq> [] \<and> CHR ''/'' \<notin> set x"
  shows "path_segments (join_slash xs) = xs"
proof (cases "xs = []")
  case True
  then show ?thesis by (simp add: path_segments_def)
next
  case False
  with assms have "split_slash (join_slash xs) = xs" by (intro split_join_slash) auto
  with assms show ?thesis by (simp add: path_segments_def filter_id_conv)
qed

lemma path_segments_slash_join:
  assumes "\<forall>x\<in>set xs. x \<noteq> [] \<and> CHR ''/'' \<notin> set x"
  shows "path_segments (CHR ''/'' # join_slash xs) = xs"
proof -
  have "split_slash (CHR ''/'' # join_slash xs) = [] # split_slash (join_slash xs)" by simp
  then have "path_segments (CHR ''/'' # join_slash xs) = path_segments (join_slash xs)"
    by (simp add: path_segments_def)
  with assms show ?thesis by (simp add: path_segments_join)
qed

subsection \<open>normalizeString on segments\<close>

lemma norm_segs_Nil [simp]: "norm_segs a res [] = res"
  by (simp add: norm_segs_def)

lemma norm_segs_Cons [simp]: "norm_segs a res (x # xs) = norm_segs a (norm_step a res x) xs"
  by (simp add: norm_segs_def)

lemma norm_segs_append: "norm_segs a res (xs @ ys) = norm_segs a (norm_segs a res xs) ys"
  by (simp add: norm_segs_def)

lemma norm_segs_snoc: "norm_segs a res (xs @ [x]) = norm_step a (norm_segs a res xs) x"
  by (simp add: norm_segs_def)

lemma norm_step_proper: "proper s \<Longrightarrow> norm_step a res s = res @ [s]"
  by (simp add: norm_step_def proper_def)

lemma norm_step_empty [simp]: "norm_step a res [] = res"
  by (simp add: norm_step_def)

lemma norm_segs_proper: "\<forall>s\<in>set cs. proper s \<Longrightarrow> norm_segs a res cs = res @ cs"
  by (induction cs arbitrary: res) (simp_all add: norm_step_proper)

lemma norm_step_elems:
  assumes "\<forall>s\<in>set res. P s" and "seg \<noteq> ''..'' \<longrightarrow> proper seg \<longrightarrow> P seg"
      and "a \<longrightarrow> P ''..''"
  shows "\<forall>s\<in>set (norm_step a res seg). P s"
  using assms by (auto simp: norm_step_def proper_def dest: in_set_butlastD)

lemma norm_segs_False_proper:
  "\<forall>s\<in>set res. proper s \<Longrightarrow> \<forall>s\<in>set (norm_segs False res xs). proper s"
proof (induction xs arbitrary: res)
  case Nil
  then show ?case by simp
next
  case (Cons x xs)
  have "\<forall>s\<in>set (norm_step False res x). proper s"
    using Cons.prems by (intro norm_step_elems) auto
  then show ?case unfolding norm_segs_Cons by (rule Cons.IH)
qed

lemma norm_segs_True_elems:
  "\<forall>s\<in>set res. s = ''..'' \<or> proper s \<Longrightarrow>
   \<forall>s\<in>set (norm_segs True res xs). s = ''..'' \<or> proper s"
proof (induction xs arbitrary: res)
  case Nil
  then show ?case by simp
next
  case (Cons x xs)
  have "\<forall>s\<in>set (norm_step True res x). s = ''..'' \<or> proper s"
    using Cons.prems by (intro norm_step_elems) auto
  then show ?case unfolding norm_segs_Cons by (rule Cons.IH)
qed

lemma norm_segs_no_slash:
  "\<forall>s\<in>set res. CHR ''/'' \<notin> set s \<Longrightarrow> \<forall>s\<in>set xs. CHR ''/'' \<notin> set s \<Longrightarrow>
   \<forall>s\<in>set (norm_segs a res xs). CHR ''/'' \<notin> set s"
proof (induction xs arbitrary: res)
  case Nil
  then show ?case by simp
next
  case (Cons x xs)
  have "\<forall>s\<in>set (norm_step a res x). CHR ''/'' \<notin> set s"
    using Cons.prems by (intro norm_step_elems) auto
  moreover from Cons.prems have "\<forall>s\<in>set xs. CHR ''/'' \<notin> set s" by simp
  ultimately show ?case unfolding norm_segs_Cons by (rule Cons.IH)
qed


text \<open>Resolving a normalized relative path is resolving the path itself.\<close>

lemma norm_segs_absorb:
  "norm_segs False c (norm_segs True [] b) = norm_segs False c b"
proof (induction b rule: rev_induct)
  case Nil
  show ?case by simp
next
  case (snoc x b)
  let ?m = "norm_segs True [] b"
  have elems: "\<forall>s\<in>set ?m. s = ''..'' \<or> proper s"
    by (rule norm_segs_True_elems) simp
  show ?case
  proof (cases "x = ''..'' \<and> ?m \<noteq> [] \<and> last ?m \<noteq> ''..''")
    case True
    then have m: "?m = butlast ?m @ [last ?m]" by simp
    from True elems have l: "proper (last ?m)" using last_in_set by blast
    have "norm_segs False c ?m = norm_segs False c (butlast ?m) @ [last ?m]"
      by (subst m) (simp add: norm_segs_snoc norm_step_proper l del: append_butlast_last_id)
    then have "norm_step False (norm_segs False c ?m) ''..'' = norm_segs False c (butlast ?m)"
      using True by (simp add: norm_step_def)
    moreover from True have "norm_step True ?m x = butlast ?m" by (simp add: norm_step_def)
    ultimately show ?thesis using True snoc.IH by (simp add: norm_segs_snoc)
  next
    case False
    then have "norm_step True ?m x = ?m \<or> norm_step True ?m x = ?m @ [x]"
      by (auto simp: norm_step_def)
    then show ?thesis
    proof
      assume same: "norm_step True ?m x = ?m"
      with False have "x = [] \<or> x = ''.''" by (auto simp: norm_step_def split: if_splits)
      then have "norm_step False (norm_segs False c b) x = norm_segs False c b"
        by (auto simp: norm_step_def)
      with same snoc.IH show ?thesis by (simp add: norm_segs_snoc)
    next
      assume "norm_step True ?m x = ?m @ [x]"
      with snoc.IH show ?thesis by (simp add: norm_segs_snoc)
    qed
  qed
qed


subsection \<open>Resolved paths\<close>

lemma is_file_name_proper: "is_file_name s \<Longrightarrow> proper s"
  by (simp add: is_file_name_def proper_def)

lemma norm_segs_split_elems:
  "\<forall>s\<in>set (norm_segs False [] (split_slash p)). s \<noteq> [] \<and> CHR ''/'' \<notin> set s"
proof -
  have "\<forall>s\<in>set (norm_segs False [] (split_slash p)). proper s"
    by (rule norm_segs_False_proper) simp
  moreover have "\<forall>s\<in>set (norm_segs False [] (split_slash p)). CHR ''/'' \<notin> set s"
    by (rule norm_segs_no_slash) (simp_all add: split_slash_elems)
  ultimately show ?thesis by (auto simp: proper_def)
qed

lemma split_slash_trailing: "split_slash (p @ [CHR ''/'']) = split_slash p @ [[]]"
  using split_slash_append [of p "[]"] by simp

lemma norm_segs_trailing: "norm_segs a res (xs @ [[]]) = norm_segs a res xs"
  by (simp add: norm_segs_snoc)

lemma resolved_segments_slash:
  "path_segments (CHR ''/'' # normalizeString (p @ [CHR ''/'']) False)
     = norm_segs False [] (split_slash p)"
proof -
  have "normalizeString (p @ [CHR ''/'']) False = join_slash (norm_segs False [] (split_slash p))"
    by (simp add: normalizeString_def split_slash_trailing norm_segs_trailing)
  then show ?thesis
    by (simp add: path_segments_slash_join norm_segs_split_elems)
qed

lemma path_resolve_one:
  assumes "absolute cwd"
  shows "path_resolve cwd [p] =
           CHR ''/'' # normalizeString
             ((if absolute p then p else if p = [] then cwd else cwd @ CHR ''/'' # p)
                @ [CHR ''/'']) False"
  using assms by (auto simp: path_resolve_def absolute_def)

lemma path_resolve_segments:
  assumes "absolute cwd"
  shows "path_segments (path_resolve cwd [p]) = resolved cwd p"
proof -
  let ?c = "norm_segs False [] (split_slash cwd)"
  have empty: "norm_segs False ?c (split_slash []) = ?c" by simp
  have rel: "norm_segs False [] (split_slash (cwd @ CHR ''/'' # p)) = norm_segs False ?c (split_slash p)"
    by (simp add: split_slash_append norm_segs_append)
  show ?thesis
    unfolding path_resolve_one [OF assms] resolved_segments_slash resolved_def resolve_base_def
    using empty rel by (auto simp: absolute_def)
qed

lemma path_resolve_two:
  assumes "absolute cwd" and "rel \<noteq> []" and "\<not> absolute rel"
  shows "path_resolve cwd [root, rel] =
           CHR ''/'' # normalizeString
             ((if absolute root then root @ CHR ''/'' # rel
               else if root = [] then cwd @ CHR ''/'' # rel
               else cwd @ CHR ''/'' # root @ CHR ''/'' # rel) @ [CHR ''/'']) False"
  using assms by (auto simp: path_resolve_def absolute_def)

lemma join_slash_plain:
  assumes "segs \<noteq> []" and "\<forall>s\<in>set segs. s \<noteq> [] \<and> CHR ''/'' \<notin> set s"
  shows "join_slash segs \<noteq> []" and "\<not> absolute (join_slash segs)"
    and "last (join_slash segs) \<noteq> CHR ''/''"
    and "split_slash (join_slash segs) = segs"
proof -
  from assms have hd: "hd segs \<noteq> []" "CHR ''/'' \<notin> set (hd segs)"
    and lst: "last segs \<noteq> []" "CHR ''/'' \<notin> set (last segs)"
    by auto
  from assms hd show ne: "join_slash segs \<noteq> []"
    by (cases segs) (auto simp: join_slash_eq_Nil)
  from assms(1) hd have "hd (join_slash segs) = hd (hd segs)" by (simp add: hd_join_slash)
  moreover from hd have "hd (hd segs) \<noteq> CHR ''/''" by (cases "hd segs") auto
  ultimately show "\<not> absolute (join_slash segs)" by (simp add: absolute_def)
  from assms(1) lst have "last (join_slash segs) = last (last segs)" by (simp add: last_join_slash)
  moreover from lst have "last (last segs) \<noteq> CHR ''/''"
    using last_in_set by metis
  ultimately show "last (join_slash segs) \<noteq> CHR ''/''" by simp
  from assms show "split_slash (join_slash segs) = segs"
    by (intro split_join_slash) auto
qed

lemma is_file_name_plain: "is_file_name s \<Longrightarrow> s \<noteq> [] \<and> CHR ''/'' \<notin> set s"
  by (simp add: is_file_name_def)

lemma join_slash_file_names:
  assumes "segs \<noteq> []" and "\<forall>s\<in>set segs. is_file_name s"
  shows "join_slash segs \<noteq> []" and "\<not> absolute (join_slash segs)"
    and "last (join_slash segs) \<noteq> CHR ''/''"
    and "split_slash (join_slash segs) = segs"
  using join_slash_plain [of segs] assms is_file_name_plain by blast+

lemma path_resolve_under_root:
  assumes "absolute cwd" and "segs \<noteq> []" and "\<forall>s\<in>set segs. is_file_name s"
  shows "path_segments (path_resolve cwd [root, join_slash segs]) = resolved cwd root @ segs"
proof -
  let ?rel = "join_slash segs"
  let ?c = "norm_segs False [] (split_slash cwd)"
  note j = join_slash_file_names [OF assms(2,3)]
  from assms(3) have p: "\<forall>s\<in>set segs. proper s" by (simp add: is_file_name_proper)
  have tail: "\<And>res. norm_segs False res (split_slash ?rel) = res @ segs"
    by (simp add: j(4) norm_segs_proper p)
  have a: "norm_segs False [] (split_slash (root @ CHR ''/'' # ?rel))
            = norm_segs False [] (split_slash root) @ segs"
    by (simp add: split_slash_append norm_segs_append tail)
  have b: "norm_segs False [] (split_slash (cwd @ CHR ''/'' # ?rel)) = ?c @ segs"
    by (simp add: split_slash_append norm_segs_append tail)
  have c: "norm_segs False [] (split_slash (cwd @ CHR ''/'' # root @ CHR ''/'' # ?rel))
            = norm_segs False ?c (split_slash root) @ segs"
    by (simp add: split_slash_append norm_segs_append tail)
  have empty: "norm_segs False ?c (split_slash []) = ?c" by simp
  show ?thesis
    unfolding path_resolve_two [OF assms(1) j(1) j(2)] resolved_segments_slash
      resolved_def resolve_base_def
    using a b c empty by (auto simp: absolute_def)
qed


subsection \<open>Joining file names to a directory\<close>

lemma path_join_file_names:
  assumes "segs \<noteq> []" and "\<forall>s\<in>set segs. is_file_name s"
  shows "path_join [d, join_slash segs] =
           (if d = [] then join_slash segs
            else (if absolute d then ''/'' else []) @
                 join_slash (norm_segs (\<not> absolute d) [] (split_slash d) @ segs))"
proof -
  let ?rel = "join_slash segs"
  note j = join_slash_file_names [OF assms]
  from assms(2) have p: "\<forall>s\<in>set segs. proper s" by (simp add: is_file_name_proper)
  show ?thesis
  proof (cases "d = []")
    case True
    have "normalizeString ?rel True = ?rel"
      by (simp add: normalizeString_def j(4) norm_segs_proper p)
    with j True show ?thesis
      by (simp add: path_join_def path_normalize_def absolute_def Let_def)
  next
    case False
    let ?m = "norm_segs (\<not> absolute d) [] (split_slash d)"
    have n: "normalizeString (d @ CHR ''/'' # ?rel) (\<not> absolute d) = join_slash (?m @ segs)"
      by (simp add: normalizeString_def split_slash_append norm_segs_append j(4)
          norm_segs_proper p)
    from assms have "last segs \<noteq> []"
      using last_in_set is_file_name_plain by blast
    with assms(1) have "last (?m @ segs) \<noteq> []" by simp
    then have "?m @ segs \<noteq> [[]]" by auto
    with assms(1) have ne: "join_slash (?m @ segs) \<noteq> []" by (simp add: join_slash_eq_Nil)
    from False j have l: "last (d @ CHR ''/'' # ?rel) \<noteq> CHR ''/''" by simp
    from False have h: "(hd (d @ CHR ''/'' # ?rel) = CHR ''/'') = absolute d"
      by (simp add: absolute_def)
    from False j(1) have "path_join [d, ?rel] = path_normalize (d @ CHR ''/'' # ?rel)"
      by (simp add: path_join_def Let_def)
    also have "\<dots> = (if absolute d then ''/'' else []) @ join_slash (?m @ segs)"
      using l h n ne by (simp add: path_normalize_def Let_def)
    finally show ?thesis using False by simp
  qed
qed

lemma resolved_path_join:
  assumes "segs \<noteq> []" and "\<forall>s\<in>set segs. is_file_name s"
  shows "resolved cwd (path_join [d, join_slash segs]) = resolved cwd d @ segs"
proof -
  let ?c = "norm_segs False [] (split_slash cwd)"
  note j = join_slash_file_names [OF assms]
  from assms(2) have p: "\<forall>s\<in>set segs. proper s" by (simp add: is_file_name_proper)
  from assms(2) have plain: "\<forall>s\<in>set segs. s \<noteq> [] \<and> CHR ''/'' \<notin> set s"
    by (simp add: is_file_name_plain)
  consider (empty) "d = []" | (abs) "absolute d" | (rel) "d \<noteq> []" "\<not> absolute d"
    by blast
  then show ?thesis
  proof cases
    case empty
    then have "path_join [d, join_slash segs] = join_slash segs"
      by (simp add: path_join_file_names [OF assms])
    with empty j show ?thesis
      by (simp add: resolved_def resolve_base_def absolute_def norm_segs_proper p)
  next
    case abs
    let ?m = "norm_segs False [] (split_slash d)"
    have m: "\<forall>s\<in>set ?m. s \<noteq> [] \<and> CHR ''/'' \<notin> set s" by (rule norm_segs_split_elems)
    have mp: "\<forall>s\<in>set ?m. proper s" by (rule norm_segs_False_proper) simp
    from abs have d: "d \<noteq> []" by (simp add: absolute_def)
    from abs d have "path_join [d, join_slash segs] = CHR ''/'' # join_slash (?m @ segs)"
      by (simp add: path_join_file_names [OF assms])
    moreover have "split_slash (join_slash (?m @ segs)) = ?m @ segs"
      using m plain assms(1) by (intro join_slash_plain(4)) auto
    moreover have "norm_segs False [] (?m @ segs) = ?m @ segs"
      using mp p by (intro norm_segs_proper [of _ _ "[]", simplified]) auto
    ultimately show ?thesis using abs
      by (simp add: resolved_def resolve_base_def absolute_def)
  next
    case rel
    let ?m = "norm_segs True [] (split_slash d)"
    have "\<forall>s\<in>set ?m. s = ''..'' \<or> proper s" by (rule norm_segs_True_elems) simp
    moreover have "\<forall>s\<in>set ?m. CHR ''/'' \<notin> set s"
      by (rule norm_segs_no_slash) (simp_all add: split_slash_elems)
    ultimately have m: "\<forall>s\<in>set ?m. s \<noteq> [] \<and> CHR ''/'' \<notin> set s"
      by (auto simp: proper_def)
    from rel have jn: "path_join [d, join_slash segs] = join_slash (?m @ segs)"
      by (simp add: path_join_file_names [OF assms])
    have ms: "?m @ segs \<noteq> []" "\<forall>s\<in>set (?m @ segs). s \<noteq> [] \<and> CHR ''/'' \<notin> set s"
      using m plain assms(1) by auto
    note jm = join_slash_plain [OF ms]
    have "resolved cwd (join_slash (?m @ segs)) = norm_segs False ?c (?m @ segs)"
      using jm by (simp add: resolved_def resolve_base_def)
    also have "\<dots> = norm_segs False ?c (split_slash d) @ segs"
      by (simp add: norm_segs_append norm_segs_absorb norm_segs_proper p)
    finally show ?thesis using rel jn by (simp add: resolved_def resolve_base_def)
  qed
qed

subsection \<open>The relative path of a file below the root\<close>

lemma drop_common_prefix: "drop_common xs (xs @ ys) = ([], ys)"
  by (induction xs) simp_all

lemma path_relative_below:
  assumes "absolute cwd" and "resolved cwd to = resolved cwd from @ segs" and "segs \<noteq> []"
  shows "path_relative cwd from to = join_slash segs"
proof -
  have seg: "path_segments (path_resolve cwd [to]) = path_segments (path_resolve cwd [from]) @ segs"
    by (simp add: path_resolve_segments [OF assms(1)] assms(2))
  with assms(3) have ne: "path_resolve cwd [from] \<noteq> path_resolve cwd [to]" by auto
  then have "from \<noteq> to" by auto
  with ne show ?thesis
    by (simp add: path_relative_def Let_def seg drop_common_prefix)
qed


subsection \<open>The walk of the content root\<close>

lemma tree_files_names:
  "snapshot_ok entries \<Longrightarrow> p \<in> set (tree_files entries) \<Longrightarrow>
   p \<noteq> [] \<and> hd p \<in> set (map fst entries) \<and> (\<forall>s\<in>set p. is_file_name s)"
proof (induction entries arbitrary: p rule: tree_files.induct)
  case 1
  then show ?case by simp
next
  case (2 n node entries)
  from "2.prems"(1) have n: "is_file_name n" and ok: "snapshot_ok entries" by simp_all
  from "2.prems"(2) consider
      (here) "p \<in> set (case node of File bytes \<Rightarrow> [[n]]
                | Dir sub \<Rightarrow> map ((#) n) (tree_files sub) | _ \<Rightarrow> [])"
    | (later) "p \<in> set (tree_files entries)"
    by auto
  then show ?case
  proof cases
    case here
    show ?thesis
    proof (cases node)
      case (File bytes)
      with here n show ?thesis by simp
    next
      case (Dir sub)
      with here obtain q where q: "q \<in> set (tree_files sub)" "p = n # q" by auto
      from "2.prems"(1) Dir have "snapshot_ok sub" by simp
      from "2.IH"(1) [OF Dir this q(1)] n q(2) show ?thesis by simp
    next
      case DirUnreadable
      with here show ?thesis by simp
    next
      case Special
      with here show ?thesis by simp
    qed
  next
    case later
    from "2.IH"(2) [OF ok later] show ?thesis by simp
  qed
qed

lemma tree_files_distinct:
  "snapshot_ok entries \<Longrightarrow> distinct (tree_files entries)"
proof (induction entries rule: tree_files.induct)
  case 1
  then show ?case by simp
next
  case (2 n node entries)
  from "2.prems" have fresh: "n \<notin> set (map fst entries)" and ok: "snapshot_ok entries"
    by simp_all
  let ?here = "case node of File bytes \<Rightarrow> [[n]]
                | Dir sub \<Rightarrow> map ((#) n) (tree_files sub) | _ \<Rightarrow> []"
  have here: "distinct ?here"
  proof (cases node)
    case (Dir sub)
    with "2.prems" have "snapshot_ok sub" by simp
    from "2.IH"(1) [OF Dir this] Dir show ?thesis by (simp add: distinct_map)
  qed simp_all
  have heads: "\<forall>p\<in>set ?here. p \<noteq> [] \<and> hd p = n"
    by (cases node) auto
  have "set ?here \<inter> set (tree_files entries) = {}"
  proof (rule ccontr)
    assume "set ?here \<inter> set (tree_files entries) \<noteq> {}"
    then obtain p where p: "p \<in> set ?here" "p \<in> set (tree_files entries)" by blast
    from tree_files_names [OF ok p(2)] heads p(1) fresh show False by auto
  qed
  with here "2.IH"(2) [OF ok] show ?case by simp
qed

lemma readDirRecursive_files:
  assumes "absolute cwd"
  shows "snapshot_ok entries \<Longrightarrow> all_readable entries \<Longrightarrow>
         resolved cwd dir = resolved cwd (cfg_root cfg) @ pre \<Longrightarrow>
         readDirRecursive cfg cwd dir entries
           = Inr (map (\<lambda>p. join_slash (pre @ p)) (tree_files entries))"
proof (induction entries arbitrary: dir pre rule: tree_files.induct)
  case 1
  show ?case by simp
next
  case (2 n node entries)
  from "2.prems" have n: "is_file_name n" and ok: "snapshot_ok entries"
    and readable: "all_readable entries" by simp_all
  let ?full = "path_join [dir, n]"
  have "resolved cwd (path_join [dir, join_slash [n]]) = resolved cwd dir @ [n]"
    using n by (intro resolved_path_join) simp_all
  with "2.prems"(3) have full: "resolved cwd ?full = resolved cwd (cfg_root cfg) @ (pre @ [n])"
    by simp
  have rest: "readDirRecursive cfg cwd dir entries
                = Inr (map (\<lambda>p. join_slash (pre @ p)) (tree_files entries))"
    by (rule "2.IH"(2) [OF ok readable "2.prems"(3)])
  show ?case
  proof (cases node)
    case (File bytes)
    have "path_relative cwd (cfg_root cfg) ?full = join_slash (pre @ [n])"
      using assms full by (rule path_relative_below) simp
    with File rest show ?thesis by (simp add: Let_def)
  next
    case (Dir sub)
    with "2.prems" have "snapshot_ok sub" "all_readable sub" by simp_all
    from "2.IH"(1) [OF Dir this full]
    have "readDirRecursive cfg cwd ?full sub
            = Inr (map (\<lambda>p. join_slash ((pre @ [n]) @ p)) (tree_files sub))" .
    with Dir rest show ?thesis by (simp add: Let_def comp_def)
  next
    case DirUnreadable
    with "2.prems"(2) show ?thesis by simp
  next
    case Special
    with rest show ?thesis by (simp add: Let_def)
  qed
qed

lemma readDirRecursive_readable:
  "readDirRecursive cfg cwd dir entries = Inr files \<Longrightarrow> all_readable entries"
proof (induction entries arbitrary: dir files rule: tree_files.induct)
  case 1
  show ?case by simp
next
  case (2 n node entries)
  from "2.prems" obtain others where "readDirRecursive cfg cwd dir entries = Inr others"
    by (auto simp: Let_def split: sum.splits)
  then have rest: "all_readable entries" by (rule "2.IH"(2))
  show ?case
  proof (cases node)
    case (Dir sub)
    with "2.prems" obtain pushed
      where "readDirRecursive cfg cwd (path_join [dir, n]) sub = Inr pushed"
      by (auto simp: Let_def split: sum.splits)
    from "2.IH"(1) [OF Dir this] Dir rest show ?thesis by simp
  next
    case DirUnreadable
    with "2.prems" show ?thesis by (simp add: Let_def)
  qed (simp_all add: rest)
qed

lemma path_extname_join:
  assumes "p \<noteq> []" and "\<forall>s\<in>set p. is_file_name s"
  shows "path_extname (join_slash p) = ext_of_base (last p)"
proof -
  from assms(2) have "path_segments (join_slash p) = p"
    by (intro path_segments_join) (simp add: is_file_name_plain)
  moreover from assms(1) obtain xs x where "p = xs @ [x]" by (cases p rule: rev_cases) auto
  ultimately show ?thesis by (simp add: path_extname_def)
qed

text \<open>
  Discovery, and the names the pipelines start with: the allow-listed files of the
  snapshot, each by its path from the root.
\<close>

lemma getAssets_names:
  assumes "absolute cwd" and "snapshot_ok entries"
      and "getAssets cfg cwd (Dir entries) = Inr assets"
  shows "map (path_relative cwd (cfg_root cfg)) assets
           = map join_slash
               (filter (\<lambda>p. ext_of_base (last p) \<in> set (validAssets cfg)) (tree_files entries))"
proof -
  let ?root = "cfg_root cfg"
  from assms(3) obtain files where files: "readDirRecursive cfg cwd ?root entries = Inr files"
    and assets: "assets = map (\<lambda>file. path_join [?root, file])
                    (filter (\<lambda>file. path_extname file \<in> set (validAssets cfg)) files)"
    by (auto simp: getAssets_def split: sum.splits)
  from files have "all_readable entries" by (rule readDirRecursive_readable)
  with readDirRecursive_files [OF assms(1,2), of ?root cfg "[]"] files
  have f: "files = map join_slash (tree_files entries)" by simp
  have names: "\<And>p. p \<in> set (tree_files entries) \<Longrightarrow> p \<noteq> [] \<and> (\<forall>s\<in>set p. is_file_name s)"
    using tree_files_names [OF assms(2)] by blast
  have ext: "\<And>p. p \<in> set (tree_files entries) \<Longrightarrow>
               path_extname (join_slash p) = ext_of_base (last p)"
    using names path_extname_join by blast
  have rel_join: "\<And>p. p \<in> set (tree_files entries) \<Longrightarrow>
               path_relative cwd ?root (path_join [?root, join_slash p]) = join_slash p"
  proof -
    fix p assume "p \<in> set (tree_files entries)"
    with names have p: "p \<noteq> []" "\<forall>s\<in>set p. is_file_name s" by blast+
    from resolved_path_join [OF p] assms(1) p(1) show
      "path_relative cwd ?root (path_join [?root, join_slash p]) = join_slash p"
      by (intro path_relative_below) auto
  qed
  have "filter (\<lambda>file. path_extname file \<in> set (validAssets cfg)) files
          = map join_slash (filter (\<lambda>p. ext_of_base (last p) \<in> set (validAssets cfg))
              (tree_files entries))"
    unfolding f filter_map comp_def
    by (rule arg_cong [where f = "map join_slash"], rule filter_cong) (simp_all add: ext)
  then show ?thesis
    unfolding assets by (simp add: comp_def rel_join cong: map_cong)
qed

subsection \<open>Resolving a resolved path\<close>

lemma resolved_of_resolved:
  assumes "\<forall>s\<in>set segs. proper s \<and> CHR ''/'' \<notin> set s"
  shows "resolved cwd (CHR ''/'' # join_slash segs) = segs"
proof (cases "segs = []")
  case True
  then show ?thesis by (simp add: resolved_def resolve_base_def absolute_def)
next
  case False
  from assms have "\<forall>s\<in>set segs. s \<noteq> [] \<and> CHR ''/'' \<notin> set s" by (auto simp: proper_def)
  with False have "split_slash (join_slash segs) = segs" by (rule join_slash_plain(4))
  with assms show ?thesis
    by (simp add: resolved_def resolve_base_def absolute_def norm_segs_proper)
qed

lemma path_resolve_under_root_again:
  assumes "absolute cwd" and "segs \<noteq> []" and "\<forall>s\<in>set segs. is_file_name s"
  shows "path_segments (path_resolve cwd [path_resolve cwd [root, join_slash segs]])
           = path_segments (path_resolve cwd [root, join_slash segs])"
proof -
  note j = join_slash_file_names [OF assms(2,3)]
  obtain x where x: "path_resolve cwd [root, join_slash segs]
                      = CHR ''/'' # normalizeString (x @ [CHR ''/'']) False"
    using path_resolve_two [OF assms(1) j(1) j(2)] by blast
  let ?n = "norm_segs False [] (split_slash x)"
  have n: "normalizeString (x @ [CHR ''/'']) False = join_slash ?n"
    by (simp add: normalizeString_def split_slash_trailing norm_segs_trailing)
  have "\<forall>s\<in>set ?n. proper s" by (rule norm_segs_False_proper) simp
  moreover have "\<forall>s\<in>set ?n. CHR ''/'' \<notin> set s"
    by (rule norm_segs_no_slash) (simp_all add: split_slash_elems)
  ultimately have elems: "\<forall>s\<in>set ?n. proper s \<and> CHR ''/'' \<notin> set s" by blast
  then have plain: "\<forall>s\<in>set ?n. s \<noteq> [] \<and> CHR ''/'' \<notin> set s" by (auto simp: proper_def)
  have "path_segments (path_resolve cwd [CHR ''/'' # join_slash ?n]) = ?n"
    by (simp add: path_resolve_segments [OF assms(1)] resolved_of_resolved [OF elems])
  moreover have "path_segments (CHR ''/'' # join_slash ?n) = ?n"
    using plain by (rule path_segments_slash_join)
  ultimately show ?thesis by (simp add: x n)
qed

subsection \<open>What the client of an asset request receives\<close>









subsection \<open>Discovery\<close>

lemma join_slash_inj:
  assumes "\<forall>s\<in>set p. is_file_name s" and "\<forall>s\<in>set q. is_file_name s"
      and "join_slash p = join_slash q"
  shows "p = q"
proof -
  from assms(1) have "path_segments (join_slash p) = p"
    by (intro path_segments_join) (simp add: is_file_name_plain)
  moreover from assms(2) have "path_segments (join_slash q) = q"
    by (intro path_segments_join) (simp add: is_file_name_plain)
  ultimately show ?thesis using assms(3) by metis
qed

lemma tree_files_join_inj:
  assumes "snapshot_ok entries"
  shows "inj_on join_slash (set (tree_files entries))"
proof (rule inj_onI)
  fix p q
  assume "p \<in> set (tree_files entries)" "q \<in> set (tree_files entries)"
    and "join_slash p = join_slash q"
  with tree_files_names [OF assms] show "p = q" by (intro join_slash_inj) blast+
qed

lemma length_filter_distinct:
  assumes "distinct (map f xs)"
  shows "length (filter (\<lambda>x. f x = y) xs) = (if y \<in> f ` set xs then 1 else 0)"
  using assms
proof (induction xs)
  case Nil
  show ?case by simp
next
  case (Cons x xs)
  then show ?case by (auto simp: image_iff)
qed

text \<open>
  Claim C4. For a snapshot of the content root and the allow-list the configuration
  sets (\<open>config.validAssets\<close>), the names of the manifest the server publishes are
  the paths, relative to the root, of the regular files found at any depth whose
  extension (\<open>path.extname\<close> of the file's name) is a member of that list, compared
  as strings; they come in the order of the walk. Every such file has exactly one
  entry, every other file has none, and no name occurs twice.
\<close>

theorem manifest_has_one_entry_per_allowed_file:
  assumes "absolute cwd" and "snapshot_ok entries"
      and "cfg_validAssets cfg = Some allow"
      and "main cfg cwd (Dir entries) now trace = Listening m ts"
  shows "map name m
           = map join_slash
               (filter (\<lambda>p. ext_of_base (last p) \<in> set allow) (tree_files entries))
         \<and> distinct (map name m)
         \<and> (\<forall>p\<in>set (tree_files entries).
               length (filter (\<lambda>e. name e = join_slash p) m)
                 = (if ext_of_base (last p) \<in> set allow then 1 else 0))"
proof -
  let ?allowed = "\<lambda>p. ext_of_base (last p) \<in> set allow"
  from assms(3) have allow: "validAssets cfg = allow" by (simp add: validAssets_def)
  from Listening_has_assets [OF assms(4)] obtain assets
    where assets: "getAssets cfg cwd (Dir entries) = Inr assets" by blast
  have names: "map name m = map join_slash (filter ?allowed (tree_files entries))"
    using published_names [OF assets assms(4)] getAssets_names [OF assms(1,2) assets]
    by (simp add: allow)
  have inj: "inj_on join_slash (set (filter ?allowed (tree_files entries)))"
    using tree_files_join_inj [OF assms(2)] by (rule inj_on_subset) auto
  have dist: "distinct (map name m)"
    unfolding names using tree_files_distinct [OF assms(2)] inj by (simp add: distinct_map)
  have count: "\<forall>p\<in>set (tree_files entries).
      length (filter (\<lambda>e. name e = join_slash p) m) = (if ?allowed p then 1 else 0)"
  proof
    fix p assume p: "p \<in> set (tree_files entries)"
    have "join_slash p \<in> join_slash ` set (filter ?allowed (tree_files entries)) \<longleftrightarrow> ?allowed p"
    proof
      assume "join_slash p \<in> join_slash ` set (filter ?allowed (tree_files entries))"
      then obtain q where q: "q \<in> set (tree_files entries)" "?allowed q"
        "join_slash p = join_slash q" by auto
      from tree_files_join_inj [OF assms(2)] q(3) p q(1) have "p = q" by (rule inj_onD)
      with q(2) show "?allowed p" by simp
    next
      assume "?allowed p"
      with p show "join_slash p \<in> join_slash ` set (filter ?allowed (tree_files entries))"
        by simp
    qed
    moreover have "name ` set m = join_slash ` set (filter ?allowed (tree_files entries))"
      using names by (metis set_map)
    ultimately show "length (filter (\<lambda>e. name e = join_slash p) m)
                      = (if ?allowed p then 1 else 0)"
      using length_filter_distinct [OF dist, of "join_slash p"] by simp
  qed
  from names dist count show ?thesis by blast
qed

theorem manifest_has_one_entry_per_allowed_file_witness:
  "cfg_validAssets listed_config = Some [''.txt'', ''.PK3'']
   \<and> main listed_config ''/srv'' (Dir listed_entries) 1000 listed_trace
       = Listening listed_manifest 5000
   \<and> tree_files listed_entries
       = [[''maps'', ''deep'', ''MAP.PK3''], [''gun.pk3''], [''readme.txt'']]
   \<and> map name listed_manifest = [''maps/deep/MAP.PK3'', ''readme.txt'']
   \<and> length (filter (\<lambda>e. name e = ''maps/deep/MAP.PK3'') listed_manifest) = 1
   \<and> length (filter (\<lambda>e. name e = ''gun.pk3'') listed_manifest) = 0
   \<and> length (filter (\<lambda>e. name e = ''readme.txt'') listed_manifest) = 1"
proof -
  have cwd: "absolute ''/srv''" by (simp add: absolute_def)
  have ok: "snapshot_ok listed_entries" by (simp add: listed_entries_def is_file_name_def)
  note built = manifest_has_one_entry_per_allowed_file [OF cwd ok listed_allow listed_run]
  have files: "tree_files listed_entries
                 = [[''maps'', ''deep'', ''MAP.PK3''], [''gun.pk3''], [''readme.txt'']]"
    by (simp add: listed_entries_def)
  have upper: "ext_of_base ''MAP.PK3'' \<in> set [''.txt'', ''.PK3'']" by code_simp
  have lower: "ext_of_base ''gun.pk3'' \<notin> set [''.txt'', ''.PK3'']" by code_simp
  have readme: "ext_of_base ''readme.txt'' \<in> set [''.txt'', ''.PK3'']" by code_simp
  from built have "map name listed_manifest = [''maps/deep/MAP.PK3'', ''readme.txt'']"
    using upper lower readme by (simp add: files)
  moreover from built
  have "length (filter (\<lambda>e. name e = join_slash [''maps'', ''deep'', ''MAP.PK3''])
          listed_manifest) = 1"
    using upper by (simp add: files)
  moreover from built
  have "length (filter (\<lambda>e. name e = join_slash [''gun.pk3'']) listed_manifest) = 0"
    using lower by (simp add: files)
  moreover from built
  have "length (filter (\<lambda>e. name e = join_slash [''readme.txt'']) listed_manifest) = 1"
    using readme by (simp add: files)
  ultimately show ?thesis using listed_allow listed_run files by simp
qed

subsection \<open>Directory traversal\<close>

text \<open>
  Claim C3. Let the manifest be the one built from a snapshot of the content root.
  Whenever \<open>handleAsset\<close> sends a file, that file is a regular file of the snapshot:
  its path is the resolved root followed by the names that lead to the file, so it lies
  below the content root. Put the other way round: when the path joined from the
  request resolves to a place that is not below the root, as it does when up-level
  segments lead out of it, the answer is the status 400.
\<close>

theorem served_file_is_below_root:
  assumes "absolute cwd" and "snapshot_ok entries"
      and "main cfg cwd (Dir entries) now trace = Listening m ts"
  shows "(\<forall>sent. handleAsset cfg cwd m (basedir, cs, basename) = SendFile sent \<longrightarrow>
            below_root cfg cwd sent
            \<and> (\<exists>p\<in>set (tree_files entries).
                  sent = path_resolve cwd [cfg_root cfg, join_slash p]
                  \<and> path_segments sent = path_segments (path_resolve cwd [cfg_root cfg]) @ p))
         \<and> (\<not> below_root cfg cwd
                 (path_resolve cwd [cfg_root cfg, path_join [basedir, basename]]) \<longrightarrow>
              handleAsset cfg cwd m (basedir, cs, basename) = Status 400)"
proof -
  let ?rel = "path_join [basedir, basename]"
  let ?abs = "path_resolve cwd [cfg_root cfg, ?rel]"
  from Listening_has_assets [OF assms(3)] obtain assets
    where assets: "getAssets cfg cwd (Dir entries) = Inr assets" by blast
  have names: "map name m = map join_slash
      (filter (\<lambda>p. ext_of_base (last p) \<in> set (validAssets cfg)) (tree_files entries))"
    using published_names [OF assets assms(3)] getAssets_names [OF assms(1,2) assets] by simp
  have served: "below_root cfg cwd ?abs
      \<and> (\<exists>p\<in>set (tree_files entries).
            ?abs = path_resolve cwd [cfg_root cfg, join_slash p]
            \<and> path_segments ?abs = path_segments (path_resolve cwd [cfg_root cfg]) @ p)"
    if found: "find_asset m ?rel (parseInt cs) \<noteq> None"
  proof -
    from found have "\<exists>e\<in>set m. name e = ?rel \<and> Finite (checksum e) = parseInt cs"
      by (simp add: find_asset_None)
    then obtain e where "e \<in> set m" "name e = ?rel" by blast
    then have "?rel \<in> set (map name m)" by force
    with names obtain p where p: "p \<in> set (tree_files entries)" "?rel = join_slash p" by auto
    from tree_files_names [OF assms(2) p(1)]
    have ne: "p \<noteq> []" and fn: "\<forall>s\<in>set p. is_file_name s" by blast+
    have segs: "path_segments (path_resolve cwd [cfg_root cfg, join_slash p])
                  = path_segments (path_resolve cwd [cfg_root cfg]) @ p"
      by (simp add: path_resolve_under_root [OF assms(1) ne fn]
          path_resolve_segments [OF assms(1)])
    moreover have "below_root cfg cwd (path_resolve cwd [cfg_root cfg, join_slash p])"
      using ne by (simp add: below_root_def Let_def segs
          path_resolve_under_root_again [OF assms(1) ne fn])
    ultimately show ?thesis using p by auto
  qed
  show ?thesis
  proof (intro conjI allI impI)
    fix sent
    assume "handleAsset cfg cwd m (basedir, cs, basename) = SendFile sent"
    then have "find_asset m ?rel (parseInt cs) \<noteq> None" "sent = ?abs"
      by (auto simp: handleAsset_unfold split: if_splits)
    with served show "below_root cfg cwd sent" by blast
    from served \<open>find_asset m ?rel (parseInt cs) \<noteq> None\<close> \<open>sent = ?abs\<close>
    show "\<exists>p\<in>set (tree_files entries).
            sent = path_resolve cwd [cfg_root cfg, join_slash p]
            \<and> path_segments sent = path_segments (path_resolve cwd [cfg_root cfg]) @ p"
      by blast
  next
    assume "\<not> below_root cfg cwd ?abs"
    with served have "find_asset m ?rel (parseInt cs) = None" by blast
    then show "handleAsset cfg cwd m (basedir, cs, basename) = Status 400"
      by (simp add: handleAsset_unfold)
  qed
qed

theorem served_file_is_below_root_witness:
  "handleAsset default_config ''/srv'' example_manifest
     (''weapons/../../'', ''3904355907'', ''passwd'') = Status 400
   \<and> below_root default_config ''/srv'' ''/srv/pk3_assets/weapons/gun.pk3''"
proof -
  have cwd: "absolute ''/srv''" by (simp add: absolute_def)
  have ok: "snapshot_ok example_entries" by (simp add: example_entries_def is_file_name_def)
  have ran: "main default_config ''/srv'' (Dir example_entries) 1000 example_trace
              = Listening example_manifest 5000"
    using example_run by (simp add: example_root_def)
  note guard = served_file_is_below_root [OF cwd ok ran]
  have outside: "\<not> below_root default_config ''/srv''
      (path_resolve ''/srv'' [cfg_root default_config, path_join [''weapons/../../'', ''passwd'']])"
    by code_simp
  have sent: "handleAsset default_config ''/srv'' example_manifest
      (''weapons/'', ''3904355907'', ''gun.pk3'') = SendFile ''/srv/pk3_assets/weapons/gun.pk3''"
    by code_simp
  from guard [THEN conjunct2, rule_format, OF outside]
  have "handleAsset default_config ''/srv'' example_manifest
     (''weapons/../../'', ''3904355907'', ''passwd'') = Status 400" .
  moreover from guard [THEN conjunct1, rule_format, OF sent]
  have "below_root default_config ''/srv'' ''/srv/pk3_assets/weapons/gun.pk3''" by blast
  ultimately show ?thesis by blast
qed

subsection \<open>The body of the manifest response\<close>

text \<open>
  Claim C2, amended. When the server listens, the body of the manifest response is a
  JSON array with one object per discovered asset, in the order of discovery; every
  object has exactly the fields \<open>name\<close>, \<open>compressed\<close> and \<open>checksum\<close>, in this
  order, and they hold what the pipeline of that asset produced: the path of the asset
  relative to the root, the number of bytes the encoder emitted until it ended, and the
  checksum of the chunks read until then.
\<close>

theorem manifest_response_body:
  assumes "getAssets cfg cwd fs = Inr assets"
      and "main cfg cwd fs now trace = Listening m ts"
  shows "get_manifest (main cfg cwd fs now trace) = Some (handleManifest m ts)
         \<and> response_body (handleManifest m ts)
             = Some (JArr (map (\<lambda>i.
                 JObj [(''name'', JStr (path_relative cwd (cfg_root cfg) (assets ! i))),
                       (''compressed'',
                          JNum (int (compressed_of (emitted i (before_end i trace))))),
                       (''checksum'',
                          JNum (crc_of_chunks (chunks_read i (before_end i trace))))])
                 [0 ..< length assets]))"
proof
  show "get_manifest (main cfg cwd fs now trace) = Some (handleManifest m ts)"
    by (simp add: get_manifest_def assms(2))
  show "response_body (handleManifest m ts)
             = Some (JArr (map (\<lambda>i.
                 JObj [(''name'', JStr (path_relative cwd (cfg_root cfg) (assets ! i))),
                       (''compressed'',
                          JNum (int (compressed_of (emitted i (before_end i trace))))),
                       (''checksum'',
                          JNum (crc_of_chunks (chunks_read i (before_end i trace))))])
                 [0 ..< length assets]))"
    unfolding published_entries [OF assms]
    by (simp add: handleManifest_def response_body_def manifest_json_def entry_json_def
        pipeline_entry_def comp_def)
qed

theorem manifest_response_body_witness:
  "get_manifest (main default_config ''/srv'' example_root 1000 example_trace)
     = Some (handleManifest example_manifest 5000)
   \<and> response_body (handleManifest example_manifest 5000)
     = Some (JArr [JObj [(''name'', JStr ''weapons/gun.pk3''), (''compressed'', JNum 4),
                         (''checksum'', JNum 3904355907)]])"
proof -
  note body = manifest_response_body [OF example_assets example_run]
  have "response_body (handleManifest example_manifest 5000)
     = Some (JArr [JObj [(''name'', JStr ''weapons/gun.pk3''), (''compressed'', JNum 4),
                         (''checksum'', JNum 3904355907)]])"
    by (simp add: handleManifest_def response_body_def manifest_json_def entry_json_def
        example_manifest_def)
  with body show ?thesis by blast
qed

subsection \<open>The time stamp of the manifest\<close>

text \<open>
  Claim C7, as the claim states it, fails. The example build starts at 1000 and the
  encoder of its only asset ends at 5000: the manifest is served with the date of 5000,
  which is not the date of 1000.
\<close>

theorem manifest_timestamp_is_not_build_start_counterexample:
  "generateManifest default_config ''/srv'' example_root 1000
     = Building \<lparr>b_start = 1000,
         b_pipelines = [\<lparr>p_name = ''weapons/gun.pk3'', p_crc = crc_seed,
                          p_compressed = 0, p_size = 0\<rparr>],
         b_results = [None]\<rparr>
   \<and> main default_config ''/srv'' example_root 1000 example_trace
     = Listening example_manifest 5000
   \<and> map_of (response_headers (handleManifest example_manifest 5000)) ''Last-Modified''
     = Some (toUTCString 5000)
   \<and> toUTCString 5000 \<noteq> toUTCString 1000"
  by (simp add: example_start example_run handleManifest_def response_headers_def
      toUTCString_def)

text \<open>
  Claim C7, amended. The \<open>Last-Modified\<close> header of the manifest response is the date
  of \<open>currentManifestTimestamp\<close>, and that is the time at which the callback of \<open>main\<close>
  ran, which is when the build completed: the time of the \<open>end\<close> event of the encoder
  with which the server, until then still building the manifest it had begun at \<open>now\<close>,
  came to listen with this manifest and this time stamp; or \<open>now\<close> itself when there
  was no asset to build.
\<close>

theorem manifest_timestamp_is_completion_time:
  assumes "main cfg cwd fs now trace = Listening m ts"
  shows "get_manifest (main cfg cwd fs now trace) = Some (handleManifest m ts)
         \<and> map_of (response_headers (handleManifest m ts)) ''Last-Modified''
             = Some (toUTCString ts)
         \<and> ((getAssets cfg cwd fs = Inr [] \<and> ts = now)
            \<or> (\<exists>pre i post b. trace = pre @ (ts, GzipEnd i) # post
                  \<and> main cfg cwd fs now pre = Building b \<and> b_start b = now
                  \<and> main cfg cwd fs now (pre @ [(ts, GzipEnd i)]) = Listening m ts))"
proof (intro conjI)
  show "get_manifest (main cfg cwd fs now trace) = Some (handleManifest m ts)"
    by (simp add: get_manifest_def assms)
  show "map_of (response_headers (handleManifest m ts)) ''Last-Modified''
          = Some (toUTCString ts)"
    by (simp add: handleManifest_def response_headers_def)
  from assms have ran: "run (generateManifest cfg cwd fs now) trace = Listening m ts"
    by (simp add: main_def)
  from generateManifest_cases [of cfg cwd fs now]
  show "(getAssets cfg cwd fs = Inr [] \<and> ts = now)
        \<or> (\<exists>pre i post b. trace = pre @ (ts, GzipEnd i) # post
              \<and> main cfg cwd fs now pre = Building b \<and> b_start b = now
              \<and> main cfg cwd fs now (pre @ [(ts, GzipEnd i)]) = Listening m ts)"
  proof (elim disjE exE conjE)
    fix e
    assume "generateManifest cfg cwd fs now = Crashed e"
    with ran show ?thesis by simp
  next
    assume none: "getAssets cfg cwd fs = Inr []"
      and "generateManifest cfg cwd fs now = Listening [] now"
    with ran run_Listening [of "[]" now trace] show ?thesis by auto
  next
    fix assets
    let ?b0 = "\<lparr>b_start = now, b_pipelines = map (new_pipeline cfg cwd) assets,
                 b_results = replicate (length assets) None\<rparr>"
    assume start: "generateManifest cfg cwd fs now = Building ?b0"
    with ran have "run (Building ?b0) trace = Listening m ts" by simp
    from run_Building_Listening [OF this] obtain pre i post b
      where split: "trace = pre @ (ts, GzipEnd i) # post"
        and pre: "run (Building ?b0) pre = Building b"
        and finished: "run (Building ?b0) (pre @ [(ts, GzipEnd i)]) = Listening m ts" by blast
    from run_Building_start [OF pre] have "b_start b = now" by simp
    with split pre finished start
    have "trace = pre @ (ts, GzipEnd i) # post
          \<and> main cfg cwd fs now pre = Building b \<and> b_start b = now
          \<and> main cfg cwd fs now (pre @ [(ts, GzipEnd i)]) = Listening m ts"
      by (simp add: main_def)
    then show ?thesis by blast
  qed
qed

text \<open>
  In the run of two assets the first encoder ends at 3000, which leaves the server
  building, and the second at 5000, which is the time stamp.
\<close>

theorem manifest_timestamp_is_completion_time_witness:
  "get_manifest (main listed_config ''/srv'' (Dir listed_entries) 1000 listed_trace)
     = Some (handleManifest listed_manifest 5000)
   \<and> map_of (response_headers (handleManifest listed_manifest 5000)) ''Last-Modified''
     = Some (toUTCString 5000)
   \<and> getAssets listed_config ''/srv'' (Dir listed_entries) \<noteq> Inr []
   \<and> \<not> listening (main listed_config ''/srv'' (Dir listed_entries) 1000
                    [(2000, StreamEnd 0), (3000, GzipEnd 0)])
   \<and> (\<exists>pre i post b. listed_trace = pre @ (5000, GzipEnd i) # post
          \<and> main listed_config ''/srv'' (Dir listed_entries) 1000 pre = Building b
          \<and> b_start b = 1000
          \<and> main listed_config ''/srv'' (Dir listed_entries) 1000 (pre @ [(5000, GzipEnd i)])
              = Listening listed_manifest 5000)"
proof -
  have some: "getAssets listed_config ''/srv'' (Dir listed_entries) \<noteq> Inr []"
    by (simp add: listed_assets)
  have early: "\<not> listening (main listed_config ''/srv'' (Dir listed_entries) 1000
                    [(2000, StreamEnd 0), (3000, GzipEnd 0)])"
    by (simp add: listed_first_end listening_def)
  from manifest_timestamp_is_completion_time [OF listed_run] some early
  show ?thesis by blast
qed

subsection \<open>How many pipelines are open\<close>

text \<open>
  Claim C9, as the claim states it, fails: no configuration bounds the number of open
  pipelines. With a configuration file that sets \<open>concurrency\<close> to 2 and three assets
  in the content root, three pipelines are open when \<open>generateManifest\<close> returns.
\<close>

theorem open_pipelines_exceed_configured_bound_counterexample:
  "map_of (cfg_other limited_config) ''concurrency'' = Some ''2''
   \<and> getAssets limited_config ''/srv'' three_assets
       = Inr [''pk3_assets/a.pk3'', ''pk3_assets/b.pk3'', ''pk3_assets/c.pk3'']
   \<and> (case generateManifest limited_config ''/srv'' three_assets 0 of
         Building b \<Rightarrow> map p_name (b_pipelines b) = [''a.pk3'', ''b.pk3'', ''c.pk3'']
                       \<and> b_results b = [None, None, None]
       | _ \<Rightarrow> False)
   \<and> in_flight (generateManifest limited_config ''/srv'' three_assets 0) = 3"
  by code_simp

text \<open>
  Claim C9, amended. \<open>async.map\<close> opens the pipeline of every discovered asset before
  any of them has finished, whatever the configuration holds: when \<open>generateManifest\<close>
  returns there is one pipeline for every discovered asset and all of them run; and as
  long as the build goes on, every one of them is still there and the pipelines that
  run are those of the assets whose encoder has not ended yet.
\<close>

theorem every_pipeline_is_open_at_start:
  assumes "getAssets cfg cwd fs = Inr assets"
  shows "in_flight (generateManifest cfg cwd fs now) = length assets
         \<and> (assets \<noteq> [] \<longrightarrow>
              (\<exists>b. generateManifest cfg cwd fs now = Building b
                 \<and> b_pipelines b = map (new_pipeline cfg cwd) assets
                 \<and> b_results b = replicate (length assets) None))
         \<and> (\<forall>trace b. main cfg cwd fs now trace = Building b \<longrightarrow>
              length (b_pipelines b) = length assets
              \<and> in_flight (main cfg cwd fs now trace)
                  = length (filter (\<lambda>i. GzipEnd i \<notin> snd ` set trace) [0 ..< length assets]))"
proof (intro conjI allI impI)
  have all_open: "filter (\<lambda>i. replicate n (None :: entry option) ! i = None) [0 ..< n] = [0 ..< n]"
    for n by (rule filter_True) simp
  show "in_flight (generateManifest cfg cwd fs now) = length assets"
    using assms by (simp add: generateManifest_def in_flight_def main_callback_def all_open)
  show "\<exists>b. generateManifest cfg cwd fs now = Building b
           \<and> b_pipelines b = map (new_pipeline cfg cwd) assets
           \<and> b_results b = replicate (length assets) None" if "assets \<noteq> []"
    using assms that by (simp add: generateManifest_def)
  fix trace b
  assume building: "main cfg cwd fs now trace = Building b"
  let ?names = "map (path_relative cwd (cfg_root cfg)) assets"
  from server_inv_run [OF generateManifest_inv [OF assms, where now = now], where tr = trace]
    building
  have inv: "build_inv ?names trace b" by (simp add: main_def server_inv_def)
  then show "length (b_pipelines b) = length assets" by (simp add: build_inv_def)
  have running: "(b_results b ! i = None) = (GzipEnd i \<notin> snd ` set trace)"
    if "i < length assets" for i
  proof -
    from inv that
    have "case b_results b ! i of
            None \<Rightarrow> GzipEnd i \<notin> snd ` set trace
          | Some e \<Rightarrow> GzipEnd i \<in> snd ` set trace
                      \<and> e = pipeline_entry (?names ! i) i trace"
      by (simp add: build_inv_def)
    then show ?thesis by (cases "b_results b ! i") simp_all
  qed
  have "filter (\<lambda>i. b_results b ! i = None) [0 ..< length assets]
          = filter (\<lambda>i. GzipEnd i \<notin> snd ` set trace) [0 ..< length assets]"
    by (rule filter_cong) (simp_all add: running)
  with inv show "in_flight (main cfg cwd fs now trace)
          = length (filter (\<lambda>i. GzipEnd i \<notin> snd ` set trace) [0 ..< length assets])"
    by (simp add: building in_flight_def build_inv_def)
qed

text \<open>
  The run of two assets: both pipelines run when \<open>generateManifest\<close> returns, and one
  of the two still does after the first encoder has ended.
\<close>

theorem every_pipeline_is_open_at_start_witness:
  "in_flight (generateManifest listed_config ''/srv'' (Dir listed_entries) 1000) = 2
   \<and> in_flight (main listed_config ''/srv'' (Dir listed_entries) 1000
         [(2000, StreamEnd 0), (3000, GzipEnd 0)]) = 1"
proof -
  note t = every_pipeline_is_open_at_start [OF listed_assets, of 1000]
  from t have "in_flight (generateManifest listed_config ''/srv'' (Dir listed_entries) 1000) = 2"
    by simp
  moreover
  from t [THEN conjunct2, THEN conjunct2, rule_format, OF listed_first_end]
  have "in_flight (main listed_config ''/srv'' (Dir listed_entries) 1000
         [(2000, StreamEnd 0), (3000, GzipEnd 0)])
        = length (filter (\<lambda>i. GzipEnd i \<notin> snd ` set [(2000 :: int, StreamEnd 0), (3000, GzipEnd 0)])
            [0 ..< length [''pk3_assets/maps/deep/MAP.PK3'', ''pk3_assets/readme.txt'']])"
    by blast
  then have "in_flight (main listed_config ''/srv'' (Dir listed_entries) 1000
         [(2000, StreamEnd 0), (3000, GzipEnd 0)]) = 1"
    by (simp add: upt_rec)
  ultimately show ?thesis by blast
qed

end
